theory Spec2Isabelle
  imports Complex_Main "HOL-Library.Multiset" "HOL-Library.AList"
begin

section \<open>Values of the host language\<close>

text \<open>
  The store module \<^verbatim>\<open>src/store/modules/permission.ts\<close> handles records whose
  \<^verbatim>\<open>meta\<close> field arrives from the backend as serialized text and is turned into an
  object by \<^verbatim>\<open>JSON.parse\<close>; its code tests such values for truthiness and reads
  keys from them. The values are modelled as a datatype of JSON-shaped values. Numbers are
  the finite ones, each the rational it denotes (the module only compares them with zero
  and subtracts them to order them, and the sign of a difference of two finite numbers is
  that of the exact difference); the infinite values and \<^verbatim>\<open>NaN\<close> are no \<open>jsval\<close>.
\<close>

datatype jsval =
    JUndefined
  | JNull
  | JBool bool
  | JNum rat
  | JStr string
  | JArr "jsval list"
  | JObj "(string \<times> jsval) list"

text \<open>\<^verbatim>\<open>!v\<close> is false exactly for the truthy values.\<close>

fun truthy :: "jsval \<Rightarrow> bool" where
  "truthy JUndefined = False"
| "truthy JNull = False"
| "truthy (JBool b) = b"
| "truthy (JNum n) = (n \<noteq> 0)"
| "truthy (JStr s) = (s \<noteq> [])"
| "truthy (JArr xs) = True"
| "truthy (JObj kvs) = True"

text \<open>
  \<^verbatim>\<open>v.k\<close> for the keys the module reads (\<^verbatim>\<open>roles\<close>, \<^verbatim>\<open>ignoreRoute\<close>,
  \<^verbatim>\<open>orderNo\<close>, \<^verbatim>\<open>affix\<close>): an object yields the stored value, every other
  non-nullish value has no such key. Reading a key of \<^verbatim>\<open>undefined\<close> or \<^verbatim>\<open>null\<close>
  raises; every read in the module is guarded (\<^verbatim>\<open>meta || {}\<close>, \<^verbatim>\<open>?.\<close>), and the
  guards are written out where \<open>get_prop\<close> is used.
\<close>

fun get_prop :: "string \<Rightarrow> jsval \<Rightarrow> jsval" where
  "get_prop k (JObj kvs) = (case map_of kvs k of Some x \<Rightarrow> x | None \<Rightarrow> JUndefined)"
| "get_prop k v = JUndefined"

text \<open>\<^verbatim>\<open>o.k = x\<close> on an object: an existing key keeps its place, a new key goes last.\<close>

fun set_prop :: "string \<Rightarrow> jsval \<Rightarrow> jsval \<Rightarrow> jsval" where
  "set_prop k x (JObj kvs) = JObj (AList.update k x kvs)"
| "set_prop k x v = v"

datatype error = TypeError | SyntaxError | RangeError | NetworkError

section \<open>Routes, menus and the store state\<close>

text \<open>
  One record type serves the flat backend records (\<^verbatim>\<open>id\<close>, \<^verbatim>\<open>pid\<close>, serialized
  \<^verbatim>\<open>meta\<close>) and the route nodes built from them. A node's \<^verbatim>\<open>children\<close> is a list;
  the module treats an absent and an empty \<^verbatim>\<open>children\<close> alike
  (\<^verbatim>\<open>children && children.length > 0\<close>), so both are the empty list.
\<close>

record menu =
  m_id :: int
  m_pid :: int
  m_name :: string
  m_path :: string
  m_redirect :: "string option"
  m_meta :: jsval
  m_component :: "string option"

datatype 'a tree = Node (label: 'a) (children: "'a tree list")

type_synonym route = "menu tree"

text \<open>
  Modelled from the spec: the type \<^verbatim>\<open>Menu\<close> of \<^verbatim>\<open>/@/router/types\<close> is not in src. A menu
  node has a name, a path and the display and ordering metadata of its route; line 277 reads
  the ordering key as \<^verbatim>\<open>a.meta?.orderNo\<close>, so the metadata is the route's \<^verbatim>\<open>meta\<close>.
\<close>

record menuNode =
  mn_name :: string
  mn_path :: string
  mn_meta :: jsval

type_synonym Menu = "menuNode tree"

record PermissionState =
  permCodeList :: "string list"
  isDynamicAddedRoute :: bool
  lastBuildMenuTime :: int
  backMenuList :: "Menu list"
  frontMenuList :: "Menu list"

definition initialState :: PermissionState where
  "initialState = \<lparr>permCodeList = [], isDynamicAddedRoute = False, lastBuildMenuTime = 0,
     backMenuList = [], frontMenuList = []\<rparr>"

definition setPermCodeList :: "string list \<Rightarrow> PermissionState \<Rightarrow> PermissionState" where
  "setPermCodeList codeList s = s\<lparr>permCodeList := codeList\<rparr>"

text \<open>\<open>now\<close> is what \<^verbatim>\<open>new Date().getTime()\<close> returns at the call.\<close>

definition setLastBuildMenuTime :: "int \<Rightarrow> PermissionState \<Rightarrow> PermissionState" where
  "setLastBuildMenuTime now s = s\<lparr>lastBuildMenuTime := now\<rparr>"

definition setBackMenuList :: "int \<Rightarrow> Menu list \<Rightarrow> PermissionState \<Rightarrow> PermissionState" where
  "setBackMenuList now list s =
     (let s1 = s\<lparr>backMenuList := list\<rparr>
      in if length list > 0 then setLastBuildMenuTime now s1 else s1)"

definition setFrontMenuList :: "Menu list \<Rightarrow> PermissionState \<Rightarrow> PermissionState" where
  "setFrontMenuList list s = s\<lparr>frontMenuList := list\<rparr>"

definition setDynamicAddedRoute :: "bool \<Rightarrow> PermissionState \<Rightarrow> PermissionState" where
  "setDynamicAddedRoute added s = s\<lparr>isDynamicAddedRoute := added\<rparr>"

definition resetState :: "PermissionState \<Rightarrow> PermissionState" where
  "resetState s = s\<lparr>isDynamicAddedRoute := False, permCodeList := [], backMenuList := [],
     lastBuildMenuTime := 0\<rparr>"

section \<open>Building the tree from the flat list\<close>

text \<open>
  \<^verbatim>\<open>JSON.parse\<close> is a built-in of the language. It is a parameter of the model: a
  function from the value handed to it to the decoded value, \<open>None\<close> where it raises
  \<^verbatim>\<open>SyntaxError\<close>.
\<close>

type_synonym parser = "jsval \<Rightarrow> jsval option"

text \<open>
  Lines 206-213: the record's \<^verbatim>\<open>meta\<close> is replaced by its decoding when it is truthy
  and decodes; when decoding raises, the exception is caught and written to the console,
  and the assignment has not happened. The second component lists what the block wrote to
  the console.
\<close>

definition decodeMeta :: "parser \<Rightarrow> menu \<Rightarrow> menu \<times> error list" where
  "decodeMeta parse m =
     (if truthy (m_meta m)
      then (case parse (m_meta m) of
              Some v \<Rightarrow> (m\<lparr>m_meta := v\<rparr>, [])
            | None \<Rightarrow> (m, [SyntaxError]))
      else (m, []))"

text \<open>
  \<^verbatim>\<open>handleBackMenuTree\<close> pushes references to the elements of \<^verbatim>\<open>menuList\<close> into
  \<^verbatim>\<open>menus\<close> and into each other's \<^verbatim>\<open>children\<close> arrays, so the elements live in a
  store: the address of an element is its index in \<^verbatim>\<open>menuList\<close>, and \<open>kids\<close> holds the
  addresses pushed into its \<^verbatim>\<open>children\<close> (empty when the array was never created).
  The backend's flat records carry no \<^verbatim>\<open>children\<close> of their own.
\<close>

record cell =
  item :: menu
  kids :: "nat list"

record builder =
  heap :: "cell list"
  menus :: "nat list"
  console :: "error list"
  thrown :: "error option"

text \<open>\<^verbatim>\<open>list.find(p)\<close>, as the position of the element found.\<close>

fun findIndex :: "('a \<Rightarrow> bool) \<Rightarrow> 'a list \<Rightarrow> nat option" where
  "findIndex P [] = None"
| "findIndex P (x # xs) = (if P x then Some 0 else map_option Suc (findIndex P xs))"

text \<open>
  The body of the \<^verbatim>\<open>forEach\<close> callback (lines 205-230) for the element at address
  \<open>i\<close>. When \<^verbatim>\<open>find\<close> yields \<^verbatim>\<open>undefined\<close>, reading \<^verbatim>\<open>parentMenu.children\<close>
  raises \<^verbatim>\<open>TypeError\<close>.
\<close>

definition placeMenu :: "parser \<Rightarrow> nat \<Rightarrow> builder \<Rightarrow> builder" where
  "placeMenu parse i b =
     (let (m, lg) = decodeMeta parse (item (heap b ! i));
          h1 = (heap b)[i := (heap b ! i)\<lparr>item := m\<rparr>];
          b1 = b\<lparr>heap := h1, console := console b @ lg\<rparr>
      in if m_pid m = 0 then b1\<lparr>menus := menus b1 @ [i]\<rparr>
         else (case findIndex (\<lambda>c. m_id (item c) = m_pid m) h1 of
                 None \<Rightarrow> b1\<lparr>thrown := Some TypeError\<rparr>
               | Some p \<Rightarrow> b1\<lparr>heap := h1[p := (h1 ! p)\<lparr>kids := kids (h1 ! p) @ [i]\<rparr>]\<rparr>))"

fun forEachMenu :: "parser \<Rightarrow> nat list \<Rightarrow> builder \<Rightarrow> builder" where
  "forEachMenu parse [] b = b"
| "forEachMenu parse (i # is) b =
     (let b1 = placeMenu parse i b
      in if thrown b1 = None then forEachMenu parse is b1 else b1)"

definition handleBackMenuTree :: "parser \<Rightarrow> menu list \<Rightarrow> builder" where
  "handleBackMenuTree parse menuList =
     forEachMenu parse [0..<length menuList]
       \<lparr>heap = map (\<lambda>m. \<lparr>item = m, kids = []\<rparr>) menuList, menus = [], console = [],
        thrown = None\<rparr>"

text \<open>
  The value returned, \<^verbatim>\<open>menus\<close>, is an array of references; what the rest of the pass
  walks is the object graph below them. \<open>unfold\<close> reads the graph below an address as a
  tree of addresses. It is bounded by fuel; \<open>refsOf\<close> gives it more fuel than the store
  has elements, which is enough whenever the builder has not raised (\<open>forestOf_total\<close>
  below): every element is pushed once, so the graph below \<^verbatim>\<open>menus\<close> has no cycle.
\<close>

fun unfold :: "nat \<Rightarrow> cell list \<Rightarrow> nat \<Rightarrow> nat tree option" where
  "unfold 0 h a = None"
| "unfold (Suc f) h a = map_option (Node a) (those (map (unfold f h) (kids (h ! a))))"

definition refsOf :: "builder \<Rightarrow> nat tree list option" where
  "refsOf b = those (map (unfold (Suc (length (heap b))) (heap b)) (menus b))"

definition forestOf :: "builder \<Rightarrow> route list option" where
  "forestOf b = map_option (map (map_tree (\<lambda>a. item (heap b ! a)))) (refsOf b)"

section \<open>Decorating the built routes\<close>

text \<open>Lines 174-182, with \<^verbatim>\<open>ROUTE_MAP\<close> (not in src) as a parameter.\<close>

fun wrapRoute :: "(string \<Rightarrow> string option) \<Rightarrow> route \<Rightarrow> route" where
  "wrapRoute rmap (Node m cs) =
     Node (m\<lparr>m_component := rmap (m_name m)\<rparr>) (map (wrapRoute rmap) cs)"

definition wrapperRouterComponent ::
  "(string \<Rightarrow> string option) \<Rightarrow> route list \<Rightarrow> route list" where
  "wrapperRouterComponent rmap routes = map (wrapRoute rmap) routes"

text \<open>
  \<^verbatim>\<open>route?.meta?.roles\<close>: a nullish \<^verbatim>\<open>meta\<close> gives \<^verbatim>\<open>undefined\<close>.
\<close>

fun nullish :: "jsval \<Rightarrow> bool" where
  "nullish JUndefined = True"
| "nullish JNull = True"
| "nullish v = False"

definition optProp :: "string \<Rightarrow> jsval \<Rightarrow> jsval" where
  "optProp k v = (if nullish v then JUndefined else get_prop k v)"

text \<open>
  Lines 190-196: a truthy \<^verbatim>\<open>meta.roles\<close> is replaced by its decoding; when decoding
  raises, the exception is written to the console and \<^verbatim>\<open>roles\<close> keeps its value.
\<close>

definition decodeRoles :: "parser \<Rightarrow> menu \<Rightarrow> menu \<times> error list" where
  "decodeRoles parse m =
     (if truthy (optProp ''roles'' (m_meta m))
      then (case parse (optProp ''roles'' (m_meta m)) of
              Some v \<Rightarrow> (m\<lparr>m_meta := set_prop ''roles'' v (m_meta m)\<rparr>, [])
            | None \<Rightarrow> (m, [SyntaxError]))
      else (m, []))"

text \<open>
  Lines 184-200. The children are handled before the node itself, so their console
  entries come first.
\<close>

fun parseRoute :: "parser \<Rightarrow> route \<Rightarrow> route \<times> error list"
  and parseRouteRoles :: "parser \<Rightarrow> route list \<Rightarrow> route list \<times> error list" where
  "parseRoute parse (Node m cs) =
     (let (cs', lg1) = parseRouteRoles parse cs;
          (m', lg2) = decodeRoles parse m
      in (Node m' cs', lg1 @ lg2))"
| "parseRouteRoles parse [] = ([], [])"
| "parseRouteRoles parse (r # rs) =
     (let (r', lg1) = parseRoute parse r;
          (rs', lg2) = parseRouteRoles parse rs
      in (r' # rs', lg1 @ lg2))"

section \<open>The two route predicates\<close>

text \<open>\<^verbatim>\<open>const { k } = meta || {}\<close>: a falsy \<^verbatim>\<open>meta\<close> is replaced by the empty object.\<close>

definition orEmpty :: "string \<Rightarrow> jsval \<Rightarrow> jsval" where
  "orEmpty k meta = (if truthy meta then get_prop k meta else JUndefined)"

fun startsWith :: "string \<Rightarrow> string \<Rightarrow> bool" where
  "startsWith s p = (take (length p) s = p)"

text \<open>\<^verbatim>\<open>s.includes(p)\<close> on strings: \<open>p\<close> occurs in \<open>s\<close>.\<close>

fun substring :: "string \<Rightarrow> string \<Rightarrow> bool" where
  "substring [] p = (p = [])"
| "substring (c # s) p = (take (length p) (c # s) = p \<or> substring s p)"

text \<open>
  \<^verbatim>\<open>roles.includes(role)\<close>: membership on an array, occurrence on a string; any other
  truthy value has no \<^verbatim>\<open>includes\<close> and the call raises.
\<close>

fun includes_of :: "jsval \<Rightarrow> string \<Rightarrow> error + bool" where
  "includes_of (JArr xs) role = Inr (JStr role \<in> set xs)"
| "includes_of (JStr s) role = Inr (substring s role)"
| "includes_of v role = Inl TypeError"

text \<open>\<^verbatim>\<open>list.some(f)\<close>: stops at the first element on which \<open>f\<close> holds or raises.\<close>

fun some :: "('a \<Rightarrow> error + bool) \<Rightarrow> 'a list \<Rightarrow> error + bool" where
  "some f [] = Inr False"
| "some f (x # xs) =
     (case f x of Inl e \<Rightarrow> Inl e | Inr b \<Rightarrow> if b then Inr True else some f xs)"

text \<open>Lines 122-129.\<close>

definition routeFilter :: "string list \<Rightarrow> route \<Rightarrow> error + bool" where
  "routeFilter roleList route =
     (let roles = orEmpty ''roles'' (m_meta (label route))
      in if \<not> truthy roles then Inr True else some (includes_of roles) roleList)"

text \<open>Lines 131-137.\<close>

definition routeRemoveIgnoreFilter :: "route \<Rightarrow> error + bool" where
  "routeRemoveIgnoreFilter route =
     Inr (\<not> truthy (orEmpty ''ignoreRoute'' (m_meta (label route))))"

text \<open>\<^verbatim>\<open>routes.filter(f)\<close> of the language, for a callback that may raise.\<close>

fun arrayFilter :: "('a \<Rightarrow> error + bool) \<Rightarrow> 'a list \<Rightarrow> error + 'a list" where
  "arrayFilter f [] = Inr []"
| "arrayFilter f (x # xs) =
     (case f x of
        Inl e \<Rightarrow> Inl e
      | Inr b \<Rightarrow> (case arrayFilter f xs of
                    Inl e \<Rightarrow> Inl e
                  | Inr ys \<Rightarrow> Inr (if b then x # ys else ys)))"

definition andThen :: "error + 'a \<Rightarrow> ('a \<Rightarrow> error + 'b) \<Rightarrow> error + 'b" where
  "andThen r f = (case r of Inl e \<Rightarrow> Inl e | Inr x \<Rightarrow> f x)"

section \<open>Helpers of the repository that are not in src\<close>

text \<open>
  Modelled from the spec: \<^verbatim>\<open>filter\<close> of \<^verbatim>\<open>/@/utils/helper/treeHelper\<close> is not in src.
  Section 4.2: it recurses into every node's children and replaces them with the filtered
  children, and does not remove the top-level nodes themselves. Among the children of a
  node, those on which the predicate fails are dropped with all below them, and those kept
  have their own children filtered in turn. An exception of the predicate leaves the walk.
\<close>

fun filterDescendants :: "('a tree \<Rightarrow> error + bool) \<Rightarrow> 'a tree \<Rightarrow> error + 'a tree"
  and filterSiblings :: "('a tree \<Rightarrow> error + bool) \<Rightarrow> 'a tree list \<Rightarrow> error + 'a tree list"
  where
  "filterDescendants p (Node x cs) =
     (case filterSiblings p cs of Inl e \<Rightarrow> Inl e | Inr cs' \<Rightarrow> Inr (Node x cs'))"
| "filterSiblings p [] = Inr []"
| "filterSiblings p (c # cs) =
     (case p c of
        Inl e \<Rightarrow> Inl e
      | Inr keep \<Rightarrow>
          if keep
          then (case filterDescendants p c of
                  Inl e \<Rightarrow> Inl e
                | Inr c' \<Rightarrow> (case filterSiblings p cs of
                              Inl e \<Rightarrow> Inl e
                            | Inr cs' \<Rightarrow> Inr (c' # cs')))
          else filterSiblings p cs)"

fun mapE :: "('a \<Rightarrow> error + 'b) \<Rightarrow> 'a list \<Rightarrow> error + 'b list" where
  "mapE f [] = Inr []"
| "mapE f (x # xs) =
     (case f x of
        Inl e \<Rightarrow> Inl e
      | Inr y \<Rightarrow> (case mapE f xs of Inl e \<Rightarrow> Inl e | Inr ys \<Rightarrow> Inr (y # ys)))"

text \<open>
  Modelled from the spec: the contract of Section 4.2 is on forests. The pass hands
  \<^verbatim>\<open>filter\<close> the variable \<^verbatim>\<open>backRouteList\<close>, which is \<^verbatim>\<open>undefined\<close> (here \<open>None\<close>)
  when the \<^verbatim>\<open>try\<close> block of lines 243-249 did not complete; there is then no list to
  walk, which in the language is a \<^verbatim>\<open>TypeError\<close>.
\<close>

definition filter_tree ::
  "('a tree \<Rightarrow> error + bool) \<Rightarrow> 'a tree list option \<Rightarrow> error + 'a tree list" where
  "filter_tree p forest =
     (case forest of None \<Rightarrow> Inl TypeError | Some ts \<Rightarrow> mapE (filterDescendants p) ts)"

text \<open>
  Modelled from the spec: the ordering key of a menu node. Section 3: \<^verbatim>\<open>orderNo\<close> is a
  number, and a missing one is treated as 0. (A value of another type is outside the data
  model of Section 3; it counts as missing here, and the order of the menu is stated below
  for routes whose \<^verbatim>\<open>orderNo\<close> is absent or a number.)
\<close>

definition orderKey :: "Menu \<Rightarrow> rat" where
  "orderKey a =
     (case optProp ''orderNo'' (mn_meta (label a)) of JNum n \<Rightarrow> n | _ \<Rightarrow> 0)"

text \<open>
  Modelled from the spec: \<^verbatim>\<open>transformRouteToMenu\<close> of \<^verbatim>\<open>/@/router/helper/menuHelper\<close>
  is not in src. Section 4.3: each route node becomes a menu node, the hierarchy is
  preserved one to one, name, path and metadata are carried over; with \<open>fillPath\<close> a child
  whose path does not start with the separator gets the parent's resolved path joined with
  its own. Section 3 (the invariant of a menu node) and Section 8.4: in the output the
  siblings of every nesting level, the roots included, are sorted ascending by the ordering
  key, and the order is stable for equal keys (\<open>sort_key\<close> is the stable insertion sort).
\<close>

fun toMenu :: "bool \<Rightarrow> string option \<Rightarrow> route \<Rightarrow> Menu" where
  "toMenu fillPath parent (Node m cs) =
     (let p = (case parent of
                 None \<Rightarrow> m_path m
               | Some pp \<Rightarrow> if fillPath \<and> \<not> startsWith (m_path m) ''/''
                            then pp @ ''/'' @ m_path m else m_path m)
      in Node \<lparr>mn_name = m_name m, mn_path = p, mn_meta = m_meta m\<rparr>
           (sort_key orderKey (map (toMenu fillPath (Some p)) cs)))"

definition transformRouteToMenu :: "route list \<Rightarrow> bool \<Rightarrow> Menu list" where
  "transformRouteToMenu routes fillPath = sort_key orderKey (map (toMenu fillPath None) routes)"

text \<open>
  Modelled from the spec: \<^verbatim>\<open>flatMultiLevelRoutes\<close> of \<^verbatim>\<open>/@/router/helper/routeHelper\<close>
  is not in src. Section 4.4: a root with at most two levels is left as it is; in a deeper
  one every node below the root's children becomes a direct child of the root, placed after
  the child it descends from, with its path rewritten to the resolved absolute path and the
  name of its original parent kept in its metadata (the spec does not name the key; it is
  \<^verbatim>\<open>parentName\<close> here).
\<close>

fun height :: "'a tree \<Rightarrow> nat" where
  "height (Node x ts) = Suc (foldr max (map height ts) 0)"

definition joinPath :: "string \<Rightarrow> string \<Rightarrow> string" where
  "joinPath parent p = (if startsWith p ''/'' then p else parent @ ''/'' @ p)"

fun backRef :: "string \<Rightarrow> jsval \<Rightarrow> jsval" where
  "backRef pname (JObj kvs) = JObj (AList.update ''parentName'' (JStr pname) kvs)"
| "backRef pname v = JObj [(''parentName'', JStr pname)]"

fun hoist :: "menu \<Rightarrow> string \<Rightarrow> route \<Rightarrow> route list" where
  "hoist parent ppath (Node m cs) =
     (let p = joinPath ppath (m_path m)
      in Node (m\<lparr>m_path := p, m_meta := backRef (m_name parent) (m_meta m)\<rparr>) []
           # concat (map (hoist m p) cs))"

definition promote :: "string \<Rightarrow> route \<Rightarrow> route list" where
  "promote rootPath c =
     Node (label c) []
       # concat (map (hoist (label c) (joinPath rootPath (m_path (label c)))) (children c))"

definition flattenRoot :: "route \<Rightarrow> route" where
  "flattenRoot r =
     (if height r \<le> 2 then r
      else Node (label r) (concat (map (promote (m_path (label r))) (children r))))"

definition flatMultiLevelRoutes :: "route list \<Rightarrow> route list" where
  "flatMultiLevelRoutes routes = map flattenRoot routes"

text \<open>
  Modelled from the spec: \<^verbatim>\<open>transformObjToRoute\<close> of \<^verbatim>\<open>/@/router/helper/routeHelper\<close>
  is not in src. Section 4.6: each record of the backend route list becomes a route node
  whose component reference is resolved from the record's name.
\<close>

definition transformObjToRoute :: "(string \<Rightarrow> string option) \<Rightarrow> route list \<Rightarrow> route list" where
  "transformObjToRoute resolveComponent routeList =
     map (map_tree (\<lambda>m. m\<lparr>m_component := resolveComponent (m_name m)\<rparr>)) routeList"

section \<open>Marking the home route\<close>

text \<open>
  \<^verbatim>\<open>Object.assign({}, meta, { affix: true })\<close> copies the own enumerable properties
  of \<^verbatim>\<open>meta\<close>: the keys of an object, the indices of a string or an array, nothing of
  any other value.
\<close>

definition digitChars :: string where
  "digitChars = ''0123456789''"

fun showNat :: "nat \<Rightarrow> string" where
  "showNat n =
     (if n < 10 then [digitChars ! n] else showNat (n div 10) @ [digitChars ! (n mod 10)])"

declare showNat.simps [simp del]

fun own_props :: "jsval \<Rightarrow> (string \<times> jsval) list" where
  "own_props (JObj kvs) = kvs"
| "own_props (JStr s) = zip (map showNat [0..<length s]) (map (\<lambda>c. JStr [c]) s)"
| "own_props (JArr xs) = zip (map showNat [0..<length xs]) xs"
| "own_props v = []"

definition assignAffix :: "jsval \<Rightarrow> jsval" where
  "assignAffix meta = JObj (AList.update ''affix'' (JBool True) (own_props meta))"

text \<open>\<^verbatim>\<open>if (redirect)\<close>: a redirect is declared when it is a non-empty string.\<close>

fun declared :: "string option \<Rightarrow> bool" where
  "declared None = False"
| "declared (Some r) = (r \<noteq> [])"

text \<open>Line 147: \<^verbatim>\<open>if (parentPath) parentPath = parentPath + '/'\<close>.\<close>

definition prefixOf :: "string \<Rightarrow> string" where
  "prefixOf parentPath = (if parentPath \<noteq> [] then parentPath @ ''/'' else parentPath)"

text \<open>
  Lines 146-161. \<open>currentPathOf\<close> is line 150, \<open>patchRoute\<close> is the callback of the \<^verbatim>\<open>forEach\<close>, \<open>patchEach\<close> the
  \<^verbatim>\<open>forEach\<close> itself, with the prefix of line 147 already computed. The captured
  variable \<^verbatim>\<open>homePath\<close> is passed along and returned; the flag tells that
  \<^verbatim>\<open>Error('end')\<close> was thrown, after which nothing more is visited.
\<close>

definition currentPathOf :: "string \<Rightarrow> string \<Rightarrow> string" where
  "currentPathOf parentPath path = (if startsWith path ''/'' then path else parentPath @ path)"

fun patchRoute :: "string \<Rightarrow> string \<Rightarrow> route \<Rightarrow> string \<times> bool \<times> route"
  and patchEach :: "string \<Rightarrow> string \<Rightarrow> route list \<Rightarrow> string \<times> bool \<times> route list" where
  "patchRoute homePath pfx (Node m cs) =
     (let currentPath = currentPathOf pfx (m_path m) in
      if currentPath = homePath \<and> \<not> declared (m_redirect m)
      then (homePath, True, Node (m\<lparr>m_meta := assignAffix (m_meta m)\<rparr>) cs)
      else (let homePath1 = (if currentPath = homePath then the (m_redirect m) else homePath) in
            case patchEach homePath1 (prefixOf currentPath) cs of
              (homePath2, stop, cs') \<Rightarrow> (homePath2, stop, Node m cs')))"
| "patchEach homePath pfx [] = (homePath, False, [])"
| "patchEach homePath pfx (r # rs) =
     (case patchRoute homePath pfx r of
        (homePath1, stop, r') \<Rightarrow>
          if stop then (homePath1, True, r' # rs)
          else (case patchEach homePath1 pfx rs of
                  (homePath2, stop2, rs') \<Rightarrow> (homePath2, stop2, r' # rs')))"

definition patcher :: "string \<Rightarrow> route list \<Rightarrow> string \<Rightarrow> string \<times> bool \<times> route list" where
  "patcher homePath routes parentPath = patchEach homePath (prefixOf parentPath) routes"

text \<open>
  Lines 142-169. The function changes the routes in place and returns nothing; the model
  returns the routes as they are afterwards.
\<close>

definition patchHomeAffix :: "string \<Rightarrow> route list \<Rightarrow> route list" where
  "patchHomeAffix homePath routes =
     (if routes = [] then routes
      else (case patcher homePath routes [] of (h, stop, routes') \<Rightarrow> routes'))"

section \<open>The resolution pass\<close>

datatype PermissionMode = ROLE | ROUTE_MAPPING | BACK

text \<open>
  What the pass reads from outside the module: the built-in decoder, the built-in
  conversion to a number of a value that is a text, an array or an object (\<open>None\<close> where
  it yields \<^verbatim>\<open>NaN\<close>), the constants of
  modules that are not in src (\<^verbatim>\<open>ROUTE_MAP\<close>, \<^verbatim>\<open>ERROR_LOG_ROUTE\<close>,
  \<^verbatim>\<open>PAGE_NOT_FOUND_ROUTE\<close>, \<^verbatim>\<open>PageEnum.BASE_HOME\<close>), the user store's role list and
  home path, the configured permission mode, the outcome of each of the three requests
  (\<open>Inl\<close> when the promise is rejected) and the clock.
\<close>

record env =
  JSON_parse :: parser
  coerceNumber :: "jsval \<Rightarrow> rat option"
  ROUTE_MAP :: "string \<Rightarrow> string option"
  ERROR_LOG_ROUTE :: route
  PAGE_NOT_FOUND_ROUTE :: route
  BASE_HOME :: string
  getRoleList :: "string list"
  getHomePath :: "string option"
  permissionMode :: PermissionMode
  getBackActiveMenuList :: "error + menu list"
  getPermCode :: "error + string list"
  getMenuList :: "error + route list"
  getTime :: int

text \<open>Line 144: \<^verbatim>\<open>userStore.getUserInfo.homePath || PageEnum.BASE_HOME\<close>.\<close>

definition homePathOf :: "env \<Rightarrow> string" where
  "homePathOf E =
     (case getHomePath E of
        None \<Rightarrow> BASE_HOME E
      | Some h \<Rightarrow> if h \<noteq> [] then h else BASE_HOME E)"

text \<open>
  Lines 237-249: the \<^verbatim>\<open>try\<close> block that fills \<^verbatim>\<open>backRouteList\<close>. The first component
  is the variable afterwards, \<open>None\<close> for \<^verbatim>\<open>undefined\<close>: line 244 assigns it only when
  the request and the tree builder complete, and the two walks of lines 245-246 do not
  raise. (The case that the built graph is no forest does not arise, see \<open>forestOf_total\<close>;
  it is written out as a \<^verbatim>\<open>RangeError\<close> of the walk.) The second component is what
  was written to the console.
\<close>

definition loadBackRoutes :: "env \<Rightarrow> route list option \<times> error list" where
  "loadBackRoutes E =
     (case getBackActiveMenuList E of
        Inl e \<Rightarrow> (None, [e])
      | Inr res \<Rightarrow>
          (let b = handleBackMenuTree (JSON_parse E) res in
           case thrown b of
             Some e \<Rightarrow> (None, console b @ [e])
           | None \<Rightarrow>
               (case forestOf b of
                  None \<Rightarrow> (None, console b @ [RangeError])
                | Some forest \<Rightarrow>
                    (let (routes, lg) =
                       parseRouteRoles (JSON_parse E) (wrapperRouterComponent (ROUTE_MAP E) forest)
                     in (Some routes, console b @ lg)))))"

record outcome =
  returned :: "error + route list"
  store :: PermissionState
  written :: "error list"

text \<open>Lines 329-331, common to the three modes.\<close>

definition finish :: "env \<Rightarrow> route list \<Rightarrow> route list" where
  "finish E routes = patchHomeAffix (homePathOf E) (routes @ [ERROR_LOG_ROUTE E])"

text \<open>Lines 302-308: the permission codes and the route list of the \<^verbatim>\<open>BACK\<close> mode.\<close>

definition fetchBack :: "env \<Rightarrow> PermissionState \<Rightarrow> route list \<times> PermissionState \<times> error list" where
  "fetchBack E s =
     (case getPermCode E of
        Inl e \<Rightarrow> ([], s, [e])
      | Inr codeList \<Rightarrow>
          (case getMenuList E of
             Inl e \<Rightarrow> ([], setPermCodeList codeList s, [e])
           | Inr routeList \<Rightarrow> (routeList, setPermCodeList codeList s, [])))"

text \<open>Line 277: an operand of the subtraction, \<^verbatim>\<open>a.meta?.orderNo || 0\<close>.\<close>

definition orderNoOr0 :: "Menu \<Rightarrow> jsval" where
  "orderNoOr0 a =
     (let v = optProp ''orderNo'' (mn_meta (label a)) in if truthy v then v else JNum 0)"

text \<open>
  The conversion the subtraction applies to an operand: a number is itself,
  \<^verbatim>\<open>true\<close> is 1 and \<^verbatim>\<open>false\<close> 0, \<^verbatim>\<open>null\<close> is 0, \<^verbatim>\<open>undefined\<close> is
  \<^verbatim>\<open>NaN\<close> (here \<open>None\<close>); a text, an array or an object is converted by the built-in
  \<open>conv\<close> (the text \<^verbatim>\<open>10\<close> is 10, the text \<^verbatim>\<open>abc\<close> is \<^verbatim>\<open>NaN\<close>).
\<close>

definition toNumber :: "(jsval \<Rightarrow> rat option) \<Rightarrow> jsval \<Rightarrow> rat option" where
  "toNumber conv v =
     (case v of
        JNum n \<Rightarrow> Some n
      | JBool b \<Rightarrow> Some (if b then 1 else 0)
      | JNull \<Rightarrow> Some 0
      | JUndefined \<Rightarrow> None
      | _ \<Rightarrow> conv v)"

text \<open>
  Lines 276-278: the comparator. A subtraction with a \<^verbatim>\<open>NaN\<close> operand is
  \<^verbatim>\<open>NaN\<close>.
\<close>

definition compareOrderNo :: "(jsval \<Rightarrow> rat option) \<Rightarrow> Menu \<Rightarrow> Menu \<Rightarrow> rat option" where
  "compareOrderNo conv a b =
     (case (toNumber conv (orderNoOr0 a), toNumber conv (orderNoOr0 b)) of
        (Some x, Some y) \<Rightarrow> Some (x - y)
      | _ \<Rightarrow> None)"

text \<open>
  \<^verbatim>\<open>list.sort(cmp)\<close> of the language: a result of the comparator that is \<^verbatim>\<open>NaN\<close>
  counts as 0, and the sort is stable. For a comparator that orders the elements
  consistently the result is fixed by the language: the elements in ascending order, those
  that compare equal in their order in the list; it is computed here by insertion, each
  element going before the first one in the sorted rest that it does not exceed
  (\<open>arraySort_sort_key\<close> below). For a comparator that is not consistent, as one with a
  \<^verbatim>\<open>NaN\<close> key may be, the language leaves the order to the engine, and no property below
  is stated for such a list.
\<close>

fun arrayInsert :: "('a \<Rightarrow> 'a \<Rightarrow> rat option) \<Rightarrow> 'a \<Rightarrow> 'a list \<Rightarrow> 'a list" where
  "arrayInsert cmp x [] = [x]"
| "arrayInsert cmp x (y # ys) =
     (if (case cmp x y of None \<Rightarrow> 0 | Some d \<Rightarrow> d) \<le> 0 then x # y # ys
      else y # arrayInsert cmp x ys)"

definition arraySort :: "('a \<Rightarrow> 'a \<Rightarrow> rat option) \<Rightarrow> 'a list \<Rightarrow> 'a list" where
  "arraySort cmp xs = foldr (arrayInsert cmp) xs []"

text \<open>
  Lines 255-257 and 266-268: the role predicate applied below the top level by
  \<^verbatim>\<open>filter\<close>, then to the top level by \<^verbatim>\<open>routes.filter\<close>. Lines 272-274 and
  321-322: the same two steps with the ignore predicate.
\<close>

definition roleFilterPass :: "string list \<Rightarrow> route list option \<Rightarrow> error + route list" where
  "roleFilterPass roleList backRouteList =
     andThen (filter_tree (routeFilter roleList) backRouteList)
       (arrayFilter (routeFilter roleList))"

definition ignoreFilterPass :: "route list \<Rightarrow> error + route list" where
  "ignoreFilterPass routes =
     andThen (filter_tree routeRemoveIgnoreFilter (Some routes))
       (arrayFilter routeRemoveIgnoreFilter)"

text \<open>
  Lines 112-332. \<open>returned\<close> is \<open>Inl\<close> when an exception leaves the action (the promise is
  rejected), \<open>Inr\<close> with the routes otherwise.
\<close>

definition buildRoutesAction :: "env \<Rightarrow> PermissionState \<Rightarrow> outcome" where
  "buildRoutesAction E s =
     (let roleList = getRoleList E;
          (backRouteList, lg) = loadBackRoutes E
      in case permissionMode E of
           ROLE \<Rightarrow>
             (case roleFilterPass roleList backRouteList of
                Inl e \<Rightarrow> \<lparr>returned = Inl e, store = s, written = lg\<rparr>
              | Inr routes \<Rightarrow>
                  \<lparr>returned = Inr (finish E (flatMultiLevelRoutes routes)), store = s,
                   written = lg\<rparr>)
         | ROUTE_MAPPING \<Rightarrow>
             (case roleFilterPass roleList backRouteList of
                Inl e \<Rightarrow> \<lparr>returned = Inl e, store = s, written = lg\<rparr>
              | Inr routes \<Rightarrow>
                  (let menuList = transformRouteToMenu routes True in
                   case ignoreFilterPass routes of
                     Inl e \<Rightarrow> \<lparr>returned = Inl e, store = s, written = lg\<rparr>
                   | Inr routes' \<Rightarrow>
                       \<lparr>returned = Inr (finish E (flatMultiLevelRoutes routes')),
                        store = setFrontMenuList
                                  (arraySort (compareOrderNo (coerceNumber E)) menuList) s,
                        written = lg\<rparr>))
         | BACK \<Rightarrow>
             (let (fetched, s1, lg') = fetchBack E s;
                  routeList = transformObjToRoute (ROUTE_MAP E) fetched;
                  s2 = setBackMenuList (getTime E) (transformRouteToMenu routeList False) s1
              in case ignoreFilterPass routeList of
                   Inl e \<Rightarrow> \<lparr>returned = Inl e, store = s2, written = lg @ lg'\<rparr>
                 | Inr routeList' \<Rightarrow>
                     \<lparr>returned =
                        Inr (finish E (PAGE_NOT_FOUND_ROUTE E # flatMultiLevelRoutes routeList')),
                      store = s2, written = lg @ lg'\<rparr>))"

section \<open>Notions used to state the properties of the tree builder\<close>

text \<open>The subtrees of a tree in pre-order, the tree itself first; and those of a forest.\<close>

fun nodes :: "'a tree \<Rightarrow> 'a tree list" where
  "nodes (Node x ts) = Node x ts # concat (map nodes ts)"

definition forestNodes :: "'a tree list \<Rightarrow> 'a tree list" where
  "forestNodes F = concat (map nodes F)"

text \<open>
  The parent lookup of line 220 for the record at position \<open>j\<close>, on the list as
  delivered; a record is an orphan when its \<^verbatim>\<open>pid\<close> is not 0 and the lookup finds nothing.
\<close>

definition parentOf :: "menu list \<Rightarrow> nat \<Rightarrow> nat option" where
  "parentOf L j = findIndex (\<lambda>m. m_id m = m_pid (L ! j)) L"

definition orphan :: "menu list \<Rightarrow> nat \<Rightarrow> bool" where
  "orphan L j = (m_pid (L ! j) \<noteq> 0 \<and> parentOf L j = None)"

definition childrenOf :: "menu list \<Rightarrow> nat \<Rightarrow> nat list" where
  "childrenOf L a = filter (\<lambda>j. m_pid (L ! j) \<noteq> 0 \<and> parentOf L j = Some a) [0..<length L]"

text \<open>
  \<open>level L k j\<close> follows the parent references from record \<open>j\<close> for at most \<open>k\<close> steps
  and counts the steps to a record with \<^verbatim>\<open>pid = 0\<close>. A list is \<open>rooted\<close> when every
  record reaches such a record: every nonzero \<^verbatim>\<open>pid\<close> is some record's \<^verbatim>\<open>id\<close> and no
  chain of parent references runs in a circle.
\<close>

fun level :: "menu list \<Rightarrow> nat \<Rightarrow> nat \<Rightarrow> nat option" where
  "level L 0 j = (if m_pid (L ! j) = 0 then Some 0 else None)"
| "level L (Suc k) j =
     (if m_pid (L ! j) = 0 then Some 0
      else (case parentOf L j of None \<Rightarrow> None | Some p \<Rightarrow> map_option Suc (level L k p)))"

definition rooted :: "menu list \<Rightarrow> bool" where
  "rooted L = list_all (\<lambda>j. level L (length L) j \<noteq> None) [0..<length L]"

text \<open>
  \<open>stateAt parse L k\<close> is the store after the first \<open>k\<close> records have been placed
  without an exception: they are decoded, each sits in \<^verbatim>\<open>menus\<close> or in the
  \<^verbatim>\<open>children\<close> of the record its parent lookup finds, in the order of the list.
\<close>

definition stateAt :: "parser \<Rightarrow> menu list \<Rightarrow> nat \<Rightarrow> builder" where
  "stateAt parse L k =
     \<lparr>heap = map (\<lambda>i. \<lparr>item = (if i < k then fst (decodeMeta parse (L ! i)) else L ! i),
                        kids = filter (\<lambda>j. m_pid (L ! j) \<noteq> 0 \<and> parentOf L j = Some i) [0..<k]\<rparr>)
               [0..<length L],
      menus = filter (\<lambda>j. m_pid (L ! j) = 0) [0..<k],
      console = concat (map (\<lambda>m. snd (decodeMeta parse m)) (take k L)),
      thrown = None\<rparr>"

text \<open>
  For a rooted list, \<open>lv\<close> is the number of parent references between a record and its
  root, and \<open>par\<close> the position its parent lookup finds.
\<close>

definition lv :: "menu list \<Rightarrow> nat \<Rightarrow> nat" where
  "lv L j = the (level L (length L) j)"

definition par :: "menu list \<Rightarrow> nat \<Rightarrow> nat" where
  "par L x = (case parentOf L x of Some p \<Rightarrow> p | None \<Rightarrow> x)"

text \<open>
  The hypothesis of the tree-build completeness property as the specification words it:
  every nonzero \<^verbatim>\<open>pid\<close> equals some record's \<^verbatim>\<open>id\<close>.
\<close>

definition consistentRefs :: "menu list \<Rightarrow> bool" where
  "consistentRefs L = list_all (\<lambda>m. m_pid m = 0 \<or> m_pid m \<in> set (map m_id L)) L"

definition decoded :: "parser \<Rightarrow> menu \<Rightarrow> menu" where
  "decoded parse m = fst (decodeMeta parse m)"

text \<open>A flat record as the backend delivers it, for the examples.\<close>

definition flatRecord :: "int \<Rightarrow> int \<Rightarrow> string \<Rightarrow> jsval \<Rightarrow> menu" where
  "flatRecord i p pth mt =
     \<lparr>m_id = i, m_pid = p, m_name = pth, m_path = pth, m_redirect = None, m_meta = mt,
      m_component = None\<rparr>"

section \<open>Notions used to state the properties of the home-route patcher\<close>

text \<open>
  The walk of the patcher as the specification words it. \<open>visitsEach\<close> lists the nodes
  of a forest depth-first in array order, each with its resolved path computed from the
  prefix of its parent. \<open>firstHomeMatch\<close> goes through that sequence with the target
  path: a node whose resolved path equals the target and that declares a redirect replaces
  the target by the redirect; the first one that equals the target and declares none is
  the node marked. It returns the final target and the position of the node marked.
\<close>

fun visits :: "string \<Rightarrow> route \<Rightarrow> (string \<times> menu) list"
  and visitsEach :: "string \<Rightarrow> route list \<Rightarrow> (string \<times> menu) list" where
  "visits pfx (Node m cs) =
     (let currentPath = currentPathOf pfx (m_path m)
      in (currentPath, m) # visitsEach (prefixOf currentPath) cs)"
| "visitsEach pfx [] = []"
| "visitsEach pfx (r # rs) = visits pfx r @ visitsEach pfx rs"

fun firstHomeMatch :: "string \<Rightarrow> (string \<times> menu) list \<Rightarrow> string \<times> nat option" where
  "firstHomeMatch home [] = (home, None)"
| "firstHomeMatch home ((p, m) # vs) =
     (if p = home
      then (if declared (m_redirect m)
            then (case firstHomeMatch (the (m_redirect m)) vs of (h, k) \<Rightarrow> (h, map_option Suc k))
            else (home, Some 0))
      else (case firstHomeMatch home vs of (h, k) \<Rightarrow> (h, map_option Suc k)))"

definition affixed :: "menu \<Rightarrow> menu" where
  "affixed m = m\<lparr>m_meta := assignAffix (m_meta m)\<rparr>"

text \<open>The labels \<open>ms\<close> with the one at position \<open>k\<close>, if any, marked.\<close>

definition markAt :: "nat option \<Rightarrow> menu list \<Rightarrow> menu list" where
  "markAt k ms = (case k of None \<Rightarrow> ms | Some i \<Rightarrow> ms[i := affixed (ms ! i)])"

section \<open>Notions used to state the properties of the role filter\<close>

text \<open>
  The role predicate as the specification words it: a node passes when \<^verbatim>\<open>meta.roles\<close>
  is absent or the role list holds one of the roles in \<^verbatim>\<open>meta.roles\<close>. The words
  presuppose what the type \<^verbatim>\<open>RouteMeta\<close> declares: \<^verbatim>\<open>roles\<close>, when present, is an
  array (\<open>typedRoles\<close>).
\<close>

definition rolesOf :: "menu \<Rightarrow> jsval" where
  "rolesOf m = orEmpty ''roles'' (m_meta m)"

definition typedRoles :: "menu \<Rightarrow> bool" where
  "typedRoles m = (case rolesOf m of JUndefined \<Rightarrow> True | JArr xs \<Rightarrow> True | _ \<Rightarrow> False)"

definition roleOk :: "string list \<Rightarrow> menu \<Rightarrow> bool" where
  "roleOk R m =
     (case rolesOf m of
        JUndefined \<Rightarrow> True
      | JArr xs \<Rightarrow> list_ex (\<lambda>r. JStr r \<in> set xs) R
      | _ \<Rightarrow> False)"

text \<open>
  The chains of labels from a root down to each node, in pre-order. A node is in a forest
  exactly when its chain is, and the chains of its descendants extend its own.
\<close>

fun chains :: "'a tree \<Rightarrow> 'a list list" where
  "chains (Node x ts) = [x] # map ((#) x) (concat (map chains ts))"

definition forestChains :: "'a tree list \<Rightarrow> 'a list list" where
  "forestChains F = concat (map chains F)"

section \<open>Notions used to state the properties of the ignore pruning\<close>

text \<open>A route, and a menu entry, whose \<^verbatim>\<open>meta.ignoreRoute\<close> is set.\<close>

definition ignored :: "menu \<Rightarrow> bool" where
  "ignored m = truthy (orEmpty ''ignoreRoute'' (m_meta m))"

definition ignoredMenu :: "menuNode \<Rightarrow> bool" where
  "ignoredMenu a = truthy (orEmpty ''ignoreRoute'' (mn_meta a))"

section \<open>Notions used to state the properties of a failed decoding\<close>




section \<open>Notions used to state the order of the menu\<close>


section \<open>Example inputs\<close>

text \<open>
  The decoder on the serialized values the examples use: \<^verbatim>\<open>JSON.parse\<close> returns the
  listed objects on the listed texts and raises on the other values the examples hand it
  (the text \<^verbatim>\<open>{oops\<close>, the text \<^verbatim>\<open>admin\<close>, the array \<^verbatim>\<open>["admin"]\<close>, which is
  converted to the text \<^verbatim>\<open>admin\<close> first, and the empty object, which is converted to
  the text \<^verbatim>\<open>[object Object]\<close> first).
\<close>

definition demoParse :: parser where
  "demoParse = map_of
     [(JStr ''{\"roles\":[\"admin\"]}'', JObj [(''roles'', JArr [JStr ''admin''])]),
      (JStr ''{\"roles\":\"admin\"}'', JObj [(''roles'', JStr ''admin'')]),
      (JStr ''{\"roles\":{}}'', JObj [(''roles'', JObj [])]),
      (JStr ''{\"orderNo\":1}'', JObj [(''orderNo'', JNum 1)]),
      (JStr ''{\"orderNo\":2}'', JObj [(''orderNo'', JNum 2)]),
      (JStr ''{\"ignoreRoute\":true}'', JObj [(''ignoreRoute'', JBool True)])]"

text \<open>
  An environment for the examples: one role, no declared home path; the conversion to a
  number is given on the text \<^verbatim>\<open>10\<close>.
\<close>

definition demoEnv :: "PermissionMode \<Rightarrow> error + menu list \<Rightarrow> env" where
  "demoEnv mode fetched =
     \<lparr>JSON_parse = demoParse, coerceNumber = map_of [(JStr ''10'', 10)],
      ROUTE_MAP = map_of [],
      ERROR_LOG_ROUTE = Node (flatRecord 0 0 ''/error-log'' JUndefined) [],
      PAGE_NOT_FOUND_ROUTE = Node (flatRecord 0 0 ''/:path(.*)*'' JUndefined) [],
      BASE_HOME = ''/dashboard'', getRoleList = [''user''], getHomePath = None,
      permissionMode = mode, getBackActiveMenuList = fetched, getPermCode = Inr [],
      getMenuList = Inr [], getTime = 1700000000000\<rparr>"

section \<open>Resetting the store\<close>

lemma resetState_fields:
  "isDynamicAddedRoute (resetState s) = False"
  "permCodeList (resetState s) = []"
  "backMenuList (resetState s) = []"
  "lastBuildMenuTime (resetState s) = 0"
  "frontMenuList (resetState s) = frontMenuList s"
  by (simp_all add: resetState_def)

text \<open>
  C9. After \<open>resetState\<close> the permission-code list, the back-menu forest, the last-build
  timestamp and the dynamic-routes flag have their initial values, but the front-menu forest
  is not among the fields the action assigns: a store holding one front-menu entry still
  holds it after the reset, so the state is not the initial one.
\<close>

theorem resetState_keeps_frontMenuList:
  "frontMenuList (resetState \<lparr>permCodeList = [''1000''], isDynamicAddedRoute = True,
       lastBuildMenuTime = 1700000000000, backMenuList = [],
       frontMenuList = [Node \<lparr>mn_name = ''Dashboard'', mn_path = ''/dashboard'',
         mn_meta = JUndefined\<rparr> []]\<rparr>)
     = [Node \<lparr>mn_name = ''Dashboard'', mn_path = ''/dashboard'', mn_meta = JUndefined\<rparr> []]
   \<and> resetState \<lparr>permCodeList = [''1000''], isDynamicAddedRoute = True,
       lastBuildMenuTime = 1700000000000, backMenuList = [],
       frontMenuList = [Node \<lparr>mn_name = ''Dashboard'', mn_path = ''/dashboard'',
         mn_meta = JUndefined\<rparr> []]\<rparr> \<noteq> initialState"
  by (simp add: resetState_def initialState_def)

section \<open>The tree builder: the state after each record\<close>

lemma decodeMeta_ids [simp]:
  "m_id (fst (decodeMeta parse m)) = m_id m"
  "m_pid (fst (decodeMeta parse m)) = m_pid m"
  by (auto simp: decodeMeta_def split: option.splits)

lemma findIndex_map: "findIndex P (map f xs) = findIndex (\<lambda>x. P (f x)) xs"
  by (induction xs) auto

lemma findIndex_cong: "(\<And>x. x \<in> set xs \<Longrightarrow> P x = Q x) \<Longrightarrow> findIndex P xs = findIndex Q xs"
  by (induction xs) auto

lemma findIndex_Some: "findIndex P xs = Some i \<Longrightarrow> i < length xs \<and> P (xs ! i) \<and> (\<forall>j<i. \<not> P (xs ! j))"
proof (induction xs arbitrary: i)
  case Nil then show ?case by simp
next
  case (Cons x xs)
  show ?case
  proof (cases "P x")
    case True with Cons.prems show ?thesis by simp
  next
    case False
    with Cons.prems obtain i' where i': "findIndex P xs = Some i'" "i = Suc i'" by auto
    from Cons.IH[OF i'(1)] False i'(2) show ?thesis
      by (auto simp: nth_Cons split: nat.splits)
  qed
qed

lemma findIndex_None: "findIndex P xs = None \<longleftrightarrow> (\<forall>x\<in>set xs. \<not> P x)"
  by (induction xs) auto

lemma stateAt_item: "k < length L \<Longrightarrow> item (heap (stateAt parse L k) ! k) = L ! k"
  by (simp add: stateAt_def)

lemma stateAt_decoded:
  assumes "k < length L"
  shows "(heap (stateAt parse L k))[k := (heap (stateAt parse L k) ! k)\<lparr>item := fst (decodeMeta parse (L ! k))\<rparr>]
         = map (\<lambda>i. \<lparr>item = (if i < Suc k then fst (decodeMeta parse (L ! i)) else L ! i),
                        kids = filter (\<lambda>j. m_pid (L ! j) \<noteq> 0 \<and> parentOf L j = Some i) [0..<k]\<rparr>)
               [0..<length L]"
  using assms by (auto simp: stateAt_def nth_list_update less_Suc_eq intro!: nth_equalityI)

lemma lookup_decoded:
  "findIndex (\<lambda>c. m_id (item c) = x)
     (map (\<lambda>i. \<lparr>item = (if i < k then fst (decodeMeta parse (L ! i)) else L ! i), kids = f i\<rparr>)
        [0..<length L])
   = findIndex (\<lambda>m. m_id m = x) L"
proof -
  have "map (\<lambda>c. m_id (item c))
          (map (\<lambda>i. \<lparr>item = (if i < k then fst (decodeMeta parse (L ! i)) else L ! i), kids = f i\<rparr>)
             [0..<length L]) = map m_id L"
    by (auto intro!: nth_equalityI)
  then have "findIndex (\<lambda>i. i = x) (map (\<lambda>c. m_id (item c))
          (map (\<lambda>i. \<lparr>item = (if i < k then fst (decodeMeta parse (L ! i)) else L ! i), kids = f i\<rparr>)
             [0..<length L])) = findIndex (\<lambda>i. i = x) (map m_id L)"
    by simp
  then show ?thesis by (simp add: findIndex_map)
qed

lemma placeMenu_unfold:
  assumes "k < length L"
  shows "placeMenu parse k (stateAt parse L k) =
     (let h1 = map (\<lambda>i. \<lparr>item = (if i < Suc k then fst (decodeMeta parse (L ! i)) else L ! i),
                        kids = filter (\<lambda>j. m_pid (L ! j) \<noteq> 0 \<and> parentOf L j = Some i) [0..<k]\<rparr>)
               [0..<length L];
          b1 = (stateAt parse L k)\<lparr>heap := h1,
                  console := console (stateAt parse L k) @ snd (decodeMeta parse (L ! k))\<rparr>
      in if m_pid (L ! k) = 0 then b1\<lparr>menus := menus b1 @ [k]\<rparr>
         else (case parentOf L k of
                 None \<Rightarrow> b1\<lparr>thrown := Some TypeError\<rparr>
               | Some p \<Rightarrow> b1\<lparr>heap := h1[p := (h1 ! p)\<lparr>kids := kids (h1 ! p) @ [k]\<rparr>]\<rparr>))"
  unfolding placeMenu_def stateAt_item[OF assms] split_beta Let_def stateAt_decoded[OF assms]
    lookup_decoded parentOf_def decodeMeta_ids
  by simp

lemma placeMenu_step:
  assumes k: "k < length L" and ok: "\<not> orphan L k"
  shows "placeMenu parse k (stateAt parse L k) = stateAt parse L (Suc k)"
proof (cases "m_pid (L ! k) = 0")
  case True
  show ?thesis
    unfolding placeMenu_unfold[OF k] using k True
    by (simp add: stateAt_def take_Suc_conv_app_nth)
next
  case False
  with ok obtain p where p: "parentOf L k = Some p" by (auto simp: orphan_def)
  then have pl: "p < length L" by (auto simp: parentOf_def dest: findIndex_Some)
  show ?thesis
    unfolding placeMenu_unfold[OF k] using k False p pl
    by (auto simp: stateAt_def take_Suc_conv_app_nth nth_list_update intro!: nth_equalityI)
qed

lemma placeMenu_orphan:
  assumes k: "k < length L" and "orphan L k"
  shows "thrown (placeMenu parse k (stateAt parse L k)) = Some TypeError"
  unfolding placeMenu_unfold[OF k] using assms by (simp add: orphan_def)

lemma forEachMenu_snoc_ok:
  "thrown (forEachMenu parse xs b) = None \<Longrightarrow> thrown b = None \<Longrightarrow>
   forEachMenu parse (xs @ [k]) b = placeMenu parse k (forEachMenu parse xs b)"
  by (induction xs arbitrary: b) (auto simp: Let_def split: if_splits)

lemma forEachMenu_snoc_thrown:
  "thrown (forEachMenu parse xs b) \<noteq> None \<Longrightarrow> thrown b = None \<Longrightarrow>
   forEachMenu parse (xs @ [k]) b = forEachMenu parse xs b"
  by (induction xs arbitrary: b) (auto simp: Let_def split: if_splits)

lemma initial_stateAt:
  "\<lparr>heap = map (\<lambda>m. \<lparr>item = m, kids = []\<rparr>) L, menus = [], console = [], thrown = None\<rparr>
   = stateAt parse L 0"
  by (auto simp: stateAt_def intro!: nth_equalityI)

lemma thrown_stateAt [simp]: "thrown (stateAt parse L k) = None"
  by (simp add: stateAt_def)

lemma forEachMenu_prefix:
  "k \<le> length L \<Longrightarrow>
   (if \<exists>j<k. orphan L j
    then thrown (forEachMenu parse [0..<k] (stateAt parse L 0)) = Some TypeError
    else forEachMenu parse [0..<k] (stateAt parse L 0) = stateAt parse L k)"
proof (induction k)
  case 0
  then show ?case by simp
next
  case (Suc k)
  then have k: "k < length L" and IH: "(if \<exists>j<k. orphan L j
    then thrown (forEachMenu parse [0..<k] (stateAt parse L 0)) = Some TypeError
    else forEachMenu parse [0..<k] (stateAt parse L 0) = stateAt parse L k)" by auto
  show ?case
  proof (cases "\<exists>j<k. orphan L j")
    case True
    with IH have t: "thrown (forEachMenu parse [0..<k] (stateAt parse L 0)) = Some TypeError" by simp
    from True have "\<exists>j<Suc k. orphan L j" using less_Suc_eq by auto
    with t show ?thesis by (simp add: forEachMenu_snoc_thrown)
  next
    case False
    with IH have e: "forEachMenu parse [0..<k] (stateAt parse L 0) = stateAt parse L k" by simp
    then have step: "forEachMenu parse [0..<Suc k] (stateAt parse L 0) = placeMenu parse k (stateAt parse L k)"
      by (simp add: forEachMenu_snoc_ok)
    show ?thesis
    proof (cases "orphan L k")
      case True
      then have "\<exists>j<Suc k. orphan L j" by auto
      with placeMenu_orphan[OF k True] step show ?thesis by simp
    next
      case nk: False
      with False have "\<not> (\<exists>j<Suc k. orphan L j)" using less_Suc_eq by auto
      with placeMenu_step[OF k nk] step show ?thesis by simp
    qed
  qed
qed

lemma handleBackMenuTree_orphan:
  "\<exists>j<length L. orphan L j \<Longrightarrow> thrown (handleBackMenuTree parse L) = Some TypeError"
  using forEachMenu_prefix[of "length L" L parse]
  by (simp add: handleBackMenuTree_def initial_stateAt[of L parse])

lemma handleBackMenuTree_ok:
  "\<not> (\<exists>j<length L. orphan L j) \<Longrightarrow> handleBackMenuTree parse L = stateAt parse L (length L)"
  using forEachMenu_prefix[of "length L" L parse]
  by (simp add: handleBackMenuTree_def initial_stateAt[of L parse])


section \<open>The tree builder: the forest below the roots\<close>


lemma level_Suc: "level L k j = Some x \<Longrightarrow> level L (Suc k) j = Some x"
proof (induction k arbitrary: j x)
  case 0 then show ?case by (auto split: if_splits)
next
  case (Suc k)
  show ?case
  proof (cases "m_pid (L ! j) = 0")
    case True with Suc.prems show ?thesis by simp
  next
    case False
    with Suc.prems obtain p y where p: "parentOf L j = Some p" "level L k p = Some y" "x = Suc y"
      by (auto split: option.splits)
    from Suc.IH[OF p(2)] have "level L (Suc k) p = Some y" .
    with p False show ?thesis by (simp del: level.simps add: level.simps(2)[of L "Suc k" j])
  qed
qed

lemma level_mono: "level L k j = Some x \<Longrightarrow> k \<le> k' \<Longrightarrow> level L k' j = Some x"
proof (induction k')
  case 0 then show ?case by simp
next
  case (Suc k')
  show ?case
  proof (cases "k = Suc k'")
    case True with Suc.prems show ?thesis by simp
  next
    case False
    with Suc.prems have "k \<le> k'" by simp
    from level_Suc[OF Suc.IH[OF Suc.prems(1) this]] show ?thesis .
  qed
qed

lemma level_bound: "level L k j = Some x \<Longrightarrow> x \<le> k"
proof (induction k arbitrary: j x)
  case 0 then show ?case by (auto split: if_splits)
next
  case (Suc k)
  show ?case
  proof (cases "m_pid (L ! j) = 0")
    case True with Suc.prems show ?thesis by simp
  next
    case False
    with Suc.prems obtain p y where p: "parentOf L j = Some p" "level L k p = Some y" "x = Suc y"
      by (auto split: option.splits)
    from Suc.IH[OF p(2)] p(3) show ?thesis by simp
  qed
qed

lemma rootedD: "rooted L \<Longrightarrow> j < length L \<Longrightarrow> \<exists>x. level L (length L) j = Some x"
  by (auto simp: rooted_def list_all_iff)

lemma lv_root: "j < length L \<Longrightarrow> m_pid (L ! j) = 0 \<Longrightarrow> lv L j = 0"
  by (cases "length L") (auto simp: lv_def)

lemma lv_child:
  assumes "rooted L" "j < length L" "m_pid (L ! j) \<noteq> 0"
  shows "\<exists>p<length L. parentOf L j = Some p \<and> lv L j = Suc (lv L p)"
proof -
  from assms obtain n where n: "length L = Suc n" by (cases "length L") auto
  from rootedD[OF assms(1,2)] obtain x where x: "level L (Suc n) j = Some x" using n by auto
  with assms(3) obtain p y where p: "parentOf L j = Some p" "level L n p = Some y" "x = Suc y"
    by (auto split: option.splits)
  from p(1) have pl: "p < length L" by (auto simp: parentOf_def dest: findIndex_Some)
  from level_Suc[OF p(2)] have "lv L p = y" by (simp add: lv_def n)
  moreover from x have "lv L j = x" by (simp add: lv_def n)
  ultimately show ?thesis using p pl by auto
qed

lemma lv_le: "rooted L \<Longrightarrow> j < length L \<Longrightarrow> lv L j \<le> length L"
  using rootedD[of L j] level_bound[of L "length L" j] by (auto simp: lv_def)

lemma those_map_Some:
  "those (map g xs) = Some ys \<longleftrightarrow> list_all2 (\<lambda>x y. g x = Some y) xs ys"
proof (induction xs arbitrary: ys)
  case Nil then show ?case by auto
next
  case (Cons x xs)
  then show ?case by (cases ys) (auto split: option.splits)
qed

lemma those_map_None:
  "those (map g xs) = None \<longleftrightarrow> (\<exists>x\<in>set xs. g x = None)"
  by (induction xs) (auto split: option.splits)

lemma kids_final:
  "a < length L \<Longrightarrow> kids (heap (stateAt parse L (length L)) ! a) = childrenOf L a"
  by (simp add: stateAt_def childrenOf_def)

lemma item_final:
  "a < length L \<Longrightarrow> item (heap (stateAt parse L (length L)) ! a) = fst (decodeMeta parse (L ! a))"
  by (simp add: stateAt_def)

lemma childrenOf_lt: "c \<in> set (childrenOf L a) \<Longrightarrow> c < length L"
  by (auto simp: childrenOf_def)

lemma childrenOf_lv:
  "rooted L \<Longrightarrow> c \<in> set (childrenOf L a) \<Longrightarrow> lv L c = Suc (lv L a)"
  using lv_child[of L c] by (auto simp: childrenOf_def)

lemma unfold_defined:
  assumes r: "rooted L"
  shows "a < length L \<Longrightarrow> length L < f + lv L a \<Longrightarrow>
         \<exists>t. unfold f (heap (stateAt parse L (length L))) a = Some t"
proof (induction f arbitrary: a)
  case 0
  with lv_le[OF r, of a] show ?case by simp
next
  case (Suc f)
  have "\<forall>c\<in>set (childrenOf L a). unfold f (heap (stateAt parse L (length L))) c \<noteq> None"
  proof
    fix c assume c: "c \<in> set (childrenOf L a)"
    from childrenOf_lv[OF r c] Suc.prems have "length L < f + lv L c" by simp
    from Suc.IH[OF childrenOf_lt[OF c] this] show "unfold f (heap (stateAt parse L (length L))) c \<noteq> None"
      by auto
  qed
  then have "those (map (unfold f (heap (stateAt parse L (length L)))) (childrenOf L a)) \<noteq> None"
    by (simp add: those_map_None)
  with Suc.prems show ?case by (auto simp: kids_final)
qed



lemma list_all2_label:
  "list_all2 (\<lambda>c t. label t = c) cs ts \<Longrightarrow> map label ts = cs"
  by (induction cs ts rule: list_all2_induct) auto

lemma list_all2_in_right:
  "list_all2 R cs ts \<Longrightarrow> t \<in> set ts \<Longrightarrow> \<exists>c\<in>set cs. R c t"
  by (induction cs ts rule: list_all2_induct) auto

lemma list_all2_in_left:
  "list_all2 R cs ts \<Longrightarrow> c \<in> set cs \<Longrightarrow> \<exists>t\<in>set ts. R c t"
  by (induction cs ts rule: list_all2_induct) auto

lemma unfold_Suc_Some:
  "unfold (Suc f) h a = Some t \<longleftrightarrow>
     (\<exists>ts. t = Node a ts \<and> list_all2 (\<lambda>c t'. unfold f h c = Some t') (kids (h ! a)) ts)"
  by (auto simp: those_map_Some)

lemma unfold_nodes:
  assumes r: "rooted L"
  shows "unfold f (heap (stateAt parse L (length L))) a = Some t \<Longrightarrow> a < length L \<Longrightarrow>
     label t = a \<and>
     (\<forall>s\<in>set (nodes t). label s < length L \<and> map label (children s) = childrenOf L (label s)
         \<and> lv L a \<le> lv L (label s) \<and> (par L ^^ (lv L (label s) - lv L a)) (label s) = a)"
proof (induction f arbitrary: a t)
  case 0
  then show ?case by simp
next
  case (Suc f)
  let ?h = "heap (stateAt parse L (length L))"
  from Suc.prems obtain ts where t: "t = Node a ts"
    and ts: "list_all2 (\<lambda>c t'. unfold f ?h c = Some t') (childrenOf L a) ts"
    using unfold_Suc_Some[of f ?h a t] by (auto simp: kids_final simp del: unfold.simps)
  have sub: "\<And>c t'. c \<in> set (childrenOf L a) \<Longrightarrow> unfold f ?h c = Some t' \<Longrightarrow>
     label t' = c \<and>
     (\<forall>s\<in>set (nodes t'). label s < length L \<and> map label (children s) = childrenOf L (label s)
         \<and> lv L c \<le> lv L (label s) \<and> (par L ^^ (lv L (label s) - lv L c)) (label s) = c)"
    using Suc.IH childrenOf_lt by blast
  have "list_all2 (\<lambda>c t'. label t' = c) (childrenOf L a) ts"
    using ts sub by (auto simp: list_all2_conv_all_nth)
  then have lab: "map label ts = childrenOf L a" by (rule list_all2_label)
  have deep: "label s < length L \<and> map label (children s) = childrenOf L (label s)
         \<and> lv L a \<le> lv L (label s) \<and> (par L ^^ (lv L (label s) - lv L a)) (label s) = a"
    if t': "t' \<in> set ts" and s: "s \<in> set (nodes t')" for t' s
  proof -
    from list_all2_in_right[OF ts t'] obtain c where c: "c \<in> set (childrenOf L a)"
      "unfold f ?h c = Some t'" by auto
    from sub[OF c] s have s1: "label s < length L" "map label (children s) = childrenOf L (label s)"
      "lv L c \<le> lv L (label s)" "(par L ^^ (lv L (label s) - lv L c)) (label s) = c" by auto
    from childrenOf_lv[OF r c(1)] have lc: "lv L c = Suc (lv L a)" .
    from c(1) have pc: "par L c = a" by (auto simp: childrenOf_def par_def)
    from lc s1(3) have e: "lv L (label s) - lv L a = Suc (lv L (label s) - lv L c)" by simp
    show ?thesis using s1 lc pc by (simp add: e)
  qed
  show ?case using t lab Suc.prems(2) deep by auto
qed

lemma distinct_concat_rel:
  assumes "list_all2 R cs ts" "distinct cs"
    and "\<And>c t. R c t \<Longrightarrow> c \<in> set cs \<Longrightarrow> distinct (g t)"
    and "\<And>c t c' t'. R c t \<Longrightarrow> R c' t' \<Longrightarrow> c \<in> set cs \<Longrightarrow> c' \<in> set cs \<Longrightarrow> c \<noteq> c'
           \<Longrightarrow> set (g t) \<inter> set (g t') = {}"
  shows "distinct (concat (map g ts))"
  using assms
proof (induction cs ts rule: list_all2_induct)
  case Nil
  then show ?case by simp
next
  case (Cons c cs t ts)
  have d: "distinct (concat (map g ts))"
    using Cons.IH Cons.prems by (metis distinct.simps(2) list.set_intros(2))
  have "set (g t) \<inter> set (g t') = {}" if "t' \<in> set ts" for t'
  proof -
    from list_all2_in_right[OF Cons.hyps(2) that] obtain c' where c': "c' \<in> set cs" "R c' t'" by auto
    with Cons.prems(1) have "c \<noteq> c'" by auto
    with Cons.prems(3)[OF Cons.hyps(1) c'(2)] c'(1) show ?thesis by simp
  qed
  moreover have "distinct (g t)" using Cons.prems(2)[OF Cons.hyps(1)] by simp
  ultimately show ?case using d by auto
qed

lemma unfold_distinct:
  assumes r: "rooted L"
  shows "unfold f (heap (stateAt parse L (length L))) a = Some t \<Longrightarrow> a < length L \<Longrightarrow>
     distinct (map label (nodes t))"
proof (induction f arbitrary: a t)
  case 0
  then show ?case by simp
next
  case (Suc f)
  let ?h = "heap (stateAt parse L (length L))"
  let ?R = "\<lambda>c t'. unfold f ?h c = Some t'"
  from Suc.prems obtain ts where t: "t = Node a ts"
    and ts: "list_all2 ?R (childrenOf L a) ts"
    using unfold_Suc_Some[of f ?h a t] by (auto simp: kids_final simp del: unfold.simps)
  have dc: "distinct (childrenOf L a)" by (simp add: childrenOf_def)
  have d1: "distinct (concat (map (\<lambda>t. map label (nodes t)) ts))"
  proof (rule distinct_concat_rel[OF ts dc])
    fix c t' assume "?R c t'" "c \<in> set (childrenOf L a)"
    then show "distinct (map label (nodes t'))" using Suc.IH childrenOf_lt by blast
  next
    fix c t1 c' t2
    assume A: "?R c t1" "?R c' t2" "c \<in> set (childrenOf L a)" "c' \<in> set (childrenOf L a)" "c \<noteq> c'"
    show "set (map label (nodes t1)) \<inter> set (map label (nodes t2)) = {}"
    proof (rule ccontr)
      assume "set (map label (nodes t1)) \<inter> set (map label (nodes t2)) \<noteq> {}"
      then obtain s1 s2 where s: "s1 \<in> set (nodes t1)" "s2 \<in> set (nodes t2)" "label s1 = label s2"
        by auto
      from unfold_nodes[OF r A(1) childrenOf_lt[OF A(3)]] s(1)
      have 1: "(par L ^^ (lv L (label s1) - lv L c)) (label s1) = c" by auto
      from unfold_nodes[OF r A(2) childrenOf_lt[OF A(4)]] s(2)
      have 2: "(par L ^^ (lv L (label s2) - lv L c')) (label s2) = c'" by auto
      from childrenOf_lv[OF r A(3)] childrenOf_lv[OF r A(4)] have "lv L c = lv L c'" by simp
      with 1 2 s(3) A(5) show False by simp
    qed
  qed
  have d2: "a \<notin> set (concat (map (\<lambda>t. map label (nodes t)) ts))"
  proof
    assume "a \<in> set (concat (map (\<lambda>t. map label (nodes t)) ts))"
    then obtain t' s where ts': "t' \<in> set ts" "s \<in> set (nodes t')" "label s = a" by auto
    from list_all2_in_right[OF ts ts'(1)] obtain c where c: "c \<in> set (childrenOf L a)" "?R c t'"
      by auto
    from unfold_nodes[OF r c(2) childrenOf_lt[OF c(1)]] ts'(2) have "lv L c \<le> lv L (label s)" by auto
    with childrenOf_lv[OF r c(1)] ts'(3) show False by simp
  qed
  have "map label (concat (map nodes ts)) = concat (map (\<lambda>t. map label (nodes t)) ts)"
    by (simp add: map_concat comp_def)
  with d1 d2 t show ?case by simp
qed



lemma rooted_no_orphan: "rooted L \<Longrightarrow> \<not> (\<exists>j<length L. orphan L j)"
  using lv_child[of L] by (auto simp: orphan_def)

lemma nodes_self [simp]: "t \<in> set (nodes t)"
  by (cases t) simp

lemma nodes_child_closed:
  "s \<in> set (nodes t) \<Longrightarrow> c \<in> set (children s) \<Longrightarrow> c \<in> set (nodes t)"
proof (induction t)
  case (Node x ts)
  show ?case
  proof (cases "s = Node x ts")
    case True
    with Node.prems have "c \<in> set ts" by simp
    then have "c \<in> set (concat (map nodes ts))" by (auto intro!: bexI[of _ c])
    then show ?thesis by simp
  next
    case False
    with Node.prems obtain t' where "t' \<in> set ts" "s \<in> set (nodes t')" by auto
    with Node.IH Node.prems(2) have "c \<in> set (nodes t')" by blast
    with \<open>t' \<in> set ts\<close> show ?thesis by auto
  qed
qed

lemma refs_final:
  assumes r: "rooted L"
  shows "\<exists>A. refsOf (stateAt parse L (length L)) = Some A \<and>
     list_all2 (\<lambda>r t. unfold (Suc (length L)) (heap (stateAt parse L (length L))) r = Some t)
        (filter (\<lambda>j. m_pid (L ! j) = 0) [0..<length L]) A"
proof -
  let ?h = "heap (stateAt parse L (length L))"
  have len: "length ?h = length L" by (simp add: stateAt_def)
  have m: "menus (stateAt parse L (length L)) = filter (\<lambda>j. m_pid (L ! j) = 0) [0..<length L]"
    by (simp add: stateAt_def)
  have "\<forall>x\<in>set (filter (\<lambda>j. m_pid (L ! j) = 0) [0..<length L]). unfold (Suc (length L)) ?h x \<noteq> None"
  proof
    fix x assume "x \<in> set (filter (\<lambda>j. m_pid (L ! j) = 0) [0..<length L])"
    then have x: "x < length L" by simp
    from unfold_defined[OF r x, of "Suc (length L)" parse] show "unfold (Suc (length L)) ?h x \<noteq> None"
      by auto
  qed
  then have "those (map (unfold (Suc (length L)) ?h) (filter (\<lambda>j. m_pid (L ! j) = 0) [0..<length L])) \<noteq> None"
    by (simp add: those_map_None del: unfold.simps)
  then obtain A where "those (map (unfold (Suc (length L)) ?h) (filter (\<lambda>j. m_pid (L ! j) = 0) [0..<length L])) = Some A"
    by auto
  then show ?thesis unfolding refsOf_def len m by (auto simp: those_map_Some simp del: unfold.simps)
qed

lemma forest_distinct:
  assumes r: "rooted L"
    and A: "list_all2 (\<lambda>r t. unfold f (heap (stateAt parse L (length L))) r = Some t)
        (filter (\<lambda>j. m_pid (L ! j) = 0) [0..<length L]) A"
  shows "distinct (map label (forestNodes A))"
proof -
  let ?R = "\<lambda>r t. unfold f (heap (stateAt parse L (length L))) r = Some t"
  let ?roots = "filter (\<lambda>j. m_pid (L ! j) = 0) [0..<length L]"
  have "distinct (concat (map (\<lambda>t. map label (nodes t)) A))"
  proof (rule distinct_concat_rel[OF A])
    show "distinct ?roots" by simp
  next
    fix c t assume "?R c t" "c \<in> set ?roots"
    then show "distinct (map label (nodes t))" using unfold_distinct[OF r] by auto
  next
    fix c t1 c' t2
    assume B: "?R c t1" "?R c' t2" "c \<in> set ?roots" "c' \<in> set ?roots" "c \<noteq> c'"
    then have cl: "c < length L" "c' < length L" by auto
    show "set (map label (nodes t1)) \<inter> set (map label (nodes t2)) = {}"
    proof (rule ccontr)
      assume "set (map label (nodes t1)) \<inter> set (map label (nodes t2)) \<noteq> {}"
      then obtain s1 s2 where s: "s1 \<in> set (nodes t1)" "s2 \<in> set (nodes t2)" "label s1 = label s2"
        by auto
      from unfold_nodes[OF r B(1) cl(1)] s(1)
      have 1: "(par L ^^ (lv L (label s1) - lv L c)) (label s1) = c" by auto
      from unfold_nodes[OF r B(2) cl(2)] s(2)
      have 2: "(par L ^^ (lv L (label s2) - lv L c')) (label s2) = c'" by auto
      from B(3,4) have "lv L c = lv L c'" by (simp add: lv_root)
      with 1 2 s(3) B(5) show False by simp
    qed
  qed
  then show ?thesis by (simp add: forestNodes_def map_concat comp_def)
qed

lemma forest_nodes_ok:
  assumes r: "rooted L"
    and A: "list_all2 (\<lambda>r t. unfold f (heap (stateAt parse L (length L))) r = Some t)
        (filter (\<lambda>j. m_pid (L ! j) = 0) [0..<length L]) A"
    and s: "s \<in> set (forestNodes A)"
  shows "label s < length L \<and> map label (children s) = childrenOf L (label s)"
proof -
  from s obtain t where t: "t \<in> set A" "s \<in> set (nodes t)" by (auto simp: forestNodes_def)
  from list_all2_in_right[OF A t(1)] obtain c where c: "c < length L"
    "unfold f (heap (stateAt parse L (length L))) c = Some t" by auto
  from unfold_nodes[OF r c(2) c(1)] t(2) show ?thesis by auto
qed

lemma forest_roots:
  assumes r: "rooted L"
    and A: "list_all2 (\<lambda>r t. unfold f (heap (stateAt parse L (length L))) r = Some t)
        (filter (\<lambda>j. m_pid (L ! j) = 0) [0..<length L]) A"
  shows "map label A = filter (\<lambda>j. m_pid (L ! j) = 0) [0..<length L]"
proof -
  have "list_all2 (\<lambda>c t. label t = c) (filter (\<lambda>j. m_pid (L ! j) = 0) [0..<length L]) A"
  proof (rule list.rel_mono_strong[OF A])
    fix c t assume "c \<in> set (filter (\<lambda>j. m_pid (L ! j) = 0) [0..<length L])"
      and "unfold f (heap (stateAt parse L (length L))) c = Some t"
    then show "label t = c" using unfold_nodes[OF r, of f parse c t] by simp
  qed
  then show ?thesis by (rule list_all2_label)
qed

lemma forest_covers:
  assumes r: "rooted L"
    and A: "list_all2 (\<lambda>r t. unfold f (heap (stateAt parse L (length L))) r = Some t)
        (filter (\<lambda>j. m_pid (L ! j) = 0) [0..<length L]) A"
  shows "lv L x = k \<Longrightarrow> x < length L \<Longrightarrow> x \<in> label ` set (forestNodes A)"
proof (induction k arbitrary: x)
  case 0
  have "m_pid (L ! x) = 0"
  proof (rule ccontr)
    assume "m_pid (L ! x) \<noteq> 0"
    from lv_child[OF r "0.prems"(2) this] "0.prems"(1) show False by auto
  qed
  with "0.prems" have "x \<in> set (map label A)" by (simp add: forest_roots[OF r A])
  then obtain t where "t \<in> set A" "label t = x" by auto
  then show ?case using nodes_self by (force simp: forestNodes_def)
next
  case (Suc k)
  have nz: "m_pid (L ! x) \<noteq> 0" using Suc.prems lv_root[of x L] by auto
  from lv_child[OF r Suc.prems(2) nz] obtain p where p: "p < length L" "parentOf L x = Some p"
    "lv L x = Suc (lv L p)" by auto
  with Suc.prems have "lv L p = k" by simp
  from Suc.IH[OF this p(1)] obtain s where s: "s \<in> set (forestNodes A)" "label s = p" by auto
  from forest_nodes_ok[OF r A s(1)] s(2) have "map label (children s) = childrenOf L p" by simp
  moreover have "x \<in> set (childrenOf L p)" using nz p(2) Suc.prems(2) by (simp add: childrenOf_def)
  ultimately have "x \<in> set (map label (children s))" by simp
  then obtain c where c: "c \<in> set (children s)" "label c = x" by auto
  from s(1) obtain t where t: "t \<in> set A" "s \<in> set (nodes t)" by (auto simp: forestNodes_def)
  from nodes_child_closed[OF t(2) c(1)] t(1) have "c \<in> set (forestNodes A)"
    by (auto simp: forestNodes_def)
  with c(2) show ?case by auto
qed

lemma forest_perm:
  assumes r: "rooted L"
    and A: "list_all2 (\<lambda>r t. unfold f (heap (stateAt parse L (length L))) r = Some t)
        (filter (\<lambda>j. m_pid (L ! j) = 0) [0..<length L]) A"
  shows "mset (map label (forestNodes A)) = mset [0..<length L]"
proof -
  have "set (map label (forestNodes A)) = set [0..<length L]"
    using forest_covers[OF r A] forest_nodes_ok[OF r A] by auto
  with forest_distinct[OF r A] show ?thesis
    by (metis distinct_upt set_eq_iff_mset_eq_distinct)
qed











section \<open>C10: an orphan record\<close>

text \<open>
  C10. When the list delivered by the backend holds an orphan (a record whose \<^verbatim>\<open>pid\<close> is
  not 0 and equals no record's \<^verbatim>\<open>id\<close>), the tree builder raises \<^verbatim>\<open>TypeError\<close> at
  the unguarded read of the parent's \<^verbatim>\<open>children\<close>, and the enclosing \<^verbatim>\<open>try\<close> block
  leaves \<^verbatim>\<open>backRouteList\<close> undefined: the orphan is not skipped on its own and no forest
  of the remaining records is kept.
\<close>

theorem orphan_discards_backend_forest:
  assumes "getBackActiveMenuList E = Inr L" and "j < length L" and "orphan L j"
  shows "thrown (handleBackMenuTree (JSON_parse E) L) = Some TypeError
       \<and> fst (loadBackRoutes E) = None"
proof -
  from assms(2,3) have "\<exists>j<length L. orphan L j" by blast
  then have t: "thrown (handleBackMenuTree (JSON_parse E) L) = Some TypeError"
    by (rule handleBackMenuTree_orphan)
  with assms(1) show ?thesis by (simp add: loadBackRoutes_def Let_def)
qed

theorem orphan_discards_backend_forest_witness:
  "getBackActiveMenuList
     (demoEnv ROLE (Inr [flatRecord 1 0 ''/dash'' JUndefined, flatRecord 2 7 ''child'' JUndefined]))
     = Inr [flatRecord 1 0 ''/dash'' JUndefined, flatRecord 2 7 ''child'' JUndefined]
   \<and> (1::nat) < length [flatRecord 1 0 ''/dash'' JUndefined, flatRecord 2 7 ''child'' JUndefined]
   \<and> orphan [flatRecord 1 0 ''/dash'' JUndefined, flatRecord 2 7 ''child'' JUndefined] 1
   \<and> thrown (handleBackMenuTree demoParse
        [flatRecord 1 0 ''/dash'' JUndefined, flatRecord 2 7 ''child'' JUndefined]) = Some TypeError
   \<and> fst (loadBackRoutes
        (demoEnv ROLE (Inr [flatRecord 1 0 ''/dash'' JUndefined, flatRecord 2 7 ''child'' JUndefined])))
       = None"
proof -
  let ?L = "[flatRecord 1 0 ''/dash'' JUndefined, flatRecord 2 7 ''child'' JUndefined]"
  let ?E = "demoEnv ROLE (Inr ?L)"
  have a: "getBackActiveMenuList ?E = Inr ?L" by (simp add: demoEnv_def)
  have b: "(1::nat) < length ?L" by simp
  have c: "orphan ?L 1" by (simp add: orphan_def parentOf_def flatRecord_def)
  have d: "JSON_parse ?E = demoParse" by (simp add: demoEnv_def)
  from orphan_discards_backend_forest[OF a b c] a b c d show ?thesis by simp
qed



section \<open>C2: the forest built from a rooted list\<close>

lemma nodes_map_tree: "nodes (map_tree f t) = map (map_tree f) (nodes t)"
  by (induction t) (simp add: map_concat comp_def cong: map_cong)

lemma forestNodes_map_tree: "forestNodes (map (map_tree f) A) = map (map_tree f) (forestNodes A)"
  by (simp add: forestNodes_def map_concat comp_def nodes_map_tree)

lemma filter_by_index: "filter P L = map ((!) L) (filter (\<lambda>i. P (L ! i)) [0..<length L])"
proof -
  have "filter P (map ((!) L) [0..<length L]) = map ((!) L) (filter (\<lambda>i. P (L ! i)) [0..<length L])"
    by (simp add: filter_map comp_def)
  then show ?thesis by (simp add: map_nth)
qed

lemma parentOf_distinct:
  assumes "distinct (map m_id L)" "a < length L"
  shows "parentOf L j = Some a \<longleftrightarrow> m_id (L ! a) = m_pid (L ! j)"
proof
  assume "parentOf L j = Some a"
  then show "m_id (L ! a) = m_pid (L ! j)" by (auto simp: parentOf_def dest: findIndex_Some)
next
  assume e: "m_id (L ! a) = m_pid (L ! j)"
  then have "\<not> (\<forall>x\<in>set L. m_id x \<noteq> m_pid (L ! j))" using assms(2) nth_mem by blast
  then obtain i where i: "parentOf L j = Some i"
    using findIndex_None[of "\<lambda>m. m_id m = m_pid (L ! j)" L] by (auto simp: parentOf_def)
  then have "i < length L" "m_id (L ! i) = m_pid (L ! j)"
    by (auto simp: parentOf_def dest: findIndex_Some)
  with e assms nth_eq_iff_index_eq[of "map m_id L" i a] have "i = a" by simp
  with i show "parentOf L j = Some a" by simp
qed

lemma childrenOf_distinct:
  assumes "distinct (map m_id L)" "a < length L"
  shows "childrenOf L a
       = filter (\<lambda>j. m_pid (L ! j) \<noteq> 0 \<and> m_pid (L ! j) = m_id (L ! a)) [0..<length L]"
  unfolding childrenOf_def by (rule filter_cong) (auto simp: parentOf_distinct[OF assms])


text \<open>
  C2, as amended. For every flat list with unique \<^verbatim>\<open>id\<close>s in which every record
  reaches a record with \<^verbatim>\<open>pid = 0\<close> along the parent references, the tree builder does
  not raise and returns a forest that holds every input record (with its \<^verbatim>\<open>meta\<close>
  decoded) exactly once; the roots are exactly the records with \<^verbatim>\<open>pid = 0\<close>, in input
  order; and the children of every node are exactly the records whose nonzero \<^verbatim>\<open>pid\<close>
  equals the node's \<^verbatim>\<open>id\<close>, in input order.
\<close>

theorem handleBackMenuTree_builds_forest:
  assumes d: "distinct (map m_id L)" and r: "rooted L"
  shows "thrown (handleBackMenuTree parse L) = None \<and>
     (\<exists>F. forestOf (handleBackMenuTree parse L) = Some F \<and>
        mset (map label (forestNodes F)) = mset (map (decoded parse) L) \<and>
        map label F = map (decoded parse) (filter (\<lambda>m. m_pid m = 0) L) \<and>
        (\<forall>t\<in>set (forestNodes F). map label (children t) =
            map (decoded parse)
              (filter (\<lambda>x. m_pid x \<noteq> 0 \<and> m_pid x = m_id (label t)) L)))"
proof -
  let ?b = "stateAt parse L (length L)"
  let ?f = "\<lambda>a. item (heap ?b ! a)"
  let ?g = "\<lambda>a. decoded parse (L ! a)"
  have b: "handleBackMenuTree parse L = ?b"
    using rooted_no_orphan[OF r] by (rule handleBackMenuTree_ok)
  from refs_final[OF r, of parse] obtain A where A: "refsOf ?b = Some A"
    "list_all2 (\<lambda>r t. unfold (Suc (length L)) (heap ?b) r = Some t)
        (filter (\<lambda>j. m_pid (L ! j) = 0) [0..<length L]) A" by blast
  have fg: "?f a = ?g a" if "a < length L" for a
    using that by (simp add: item_final decoded_def)
  have lt: "label s < length L" if "s \<in> set (forestNodes A)" for s
    using forest_nodes_ok[OF r A(2) that] by simp
  let ?F = "map (map_tree ?f) A"
  have F: "forestOf ?b = Some ?F" by (simp add: forestOf_def A(1))
  have "map label (forestNodes ?F) = map ?f (map label (forestNodes A))"
    by (simp add: forestNodes_map_tree tree.map_sel comp_def)
  also have "\<dots> = map ?g (map label (forestNodes A))"
    using fg lt by simp
  finally have "mset (map label (forestNodes ?F)) = image_mset ?g (mset (map label (forestNodes A)))"
    by (simp only: mset_map)
  also have "\<dots> = image_mset ?g (mset [0..<length L])"
    by (simp only: forest_perm[OF r A(2)])
  also have "\<dots> = mset (map (decoded parse) (map ((!) L) [0..<length L]))"
    by (simp add: comp_def)
  finally have 1: "mset (map label (forestNodes ?F)) = mset (map (decoded parse) L)"
    by (simp only: map_nth)
  have "map label ?F = map ?f (map label A)" by (simp add: tree.map_sel comp_def)
  also have "\<dots> = map ?g (filter (\<lambda>j. m_pid (L ! j) = 0) [0..<length L])"
    using fg by (simp add: forest_roots[OF r A(2)])
  also have "\<dots> = map (decoded parse) (filter (\<lambda>m. m_pid m = 0) L)"
    by (simp add: filter_by_index[of _ L] comp_def)
  finally have 2: "map label ?F = map (decoded parse) (filter (\<lambda>m. m_pid m = 0) L)" .
  have 3: "map label (children t) =
            map (decoded parse) (filter (\<lambda>x. m_pid x \<noteq> 0 \<and> m_pid x = m_id (label t)) L)"
    if t: "t \<in> set (forestNodes ?F)" for t
  proof -
    from t obtain s where s: "s \<in> set (forestNodes A)" "t = map_tree ?f s"
      by (auto simp: forestNodes_map_tree)
    from forest_nodes_ok[OF r A(2) s(1)] have sl: "label s < length L"
      and sc: "map label (children s) = childrenOf L (label s)" by auto
    have id: "m_id (label t) = m_id (L ! label s)"
      using s(2) sl by (simp add: tree.map_sel fg decoded_def)
    have "map label (children t) = map ?f (map label (children s))"
      using s(2) by (simp add: tree.map_sel comp_def)
    also have "\<dots> = map ?f (childrenOf L (label s))" by (simp only: sc)
    also have "\<dots> = map ?g (childrenOf L (label s))"
      using fg childrenOf_lt by simp
    also have "\<dots> = map ?g (filter (\<lambda>j. m_pid (L ! j) \<noteq> 0 \<and> m_pid (L ! j) = m_id (label t)) [0..<length L])"
      by (simp only: childrenOf_distinct[OF d sl] id)
    also have "\<dots> = map (decoded parse) (filter (\<lambda>x. m_pid x \<noteq> 0 \<and> m_pid x = m_id (label t)) L)"
      by (simp add: filter_by_index[of _ L] comp_def)
    finally show ?thesis .
  qed
  from b F 1 2 3 show ?thesis by auto
qed



theorem handleBackMenuTree_builds_forest_witness:
  "distinct (map m_id [flatRecord 2 1 ''child'' (JStr ''{\"roles\":[\"admin\"]}''),
      flatRecord 1 0 ''/dash'' JUndefined, flatRecord 3 1 ''other'' (JStr ''{oops'')])
   \<and> rooted [flatRecord 2 1 ''child'' (JStr ''{\"roles\":[\"admin\"]}''),
      flatRecord 1 0 ''/dash'' JUndefined, flatRecord 3 1 ''other'' (JStr ''{oops'')]
   \<and> thrown (handleBackMenuTree demoParse [flatRecord 2 1 ''child'' (JStr ''{\"roles\":[\"admin\"]}''),
      flatRecord 1 0 ''/dash'' JUndefined, flatRecord 3 1 ''other'' (JStr ''{oops'')]) = None
   \<and> forestOf (handleBackMenuTree demoParse [flatRecord 2 1 ''child'' (JStr ''{\"roles\":[\"admin\"]}''),
      flatRecord 1 0 ''/dash'' JUndefined, flatRecord 3 1 ''other'' (JStr ''{oops'')])
     = Some [Node (flatRecord 1 0 ''/dash'' JUndefined)
               [Node (flatRecord 2 1 ''child'' (JObj [(''roles'', JArr [JStr ''admin''])])) [],
                Node (flatRecord 3 1 ''other'' (JStr ''{oops'')) []]]"
proof -
  let ?L = "[flatRecord 2 1 ''child'' (JStr ''{\"roles\":[\"admin\"]}''),
      flatRecord 1 0 ''/dash'' JUndefined, flatRecord 3 1 ''other'' (JStr ''{oops'')]"
  have h1: "distinct (map m_id ?L)" by code_simp
  have h2: "rooted ?L" by code_simp
  have h3: "forestOf (handleBackMenuTree demoParse ?L)
     = Some [Node (flatRecord 1 0 ''/dash'' JUndefined)
               [Node (flatRecord 2 1 ''child'' (JObj [(''roles'', JArr [JStr ''admin''])])) [],
                Node (flatRecord 3 1 ''other'' (JStr ''{oops'')) []]]" by code_simp
  from handleBackMenuTree_builds_forest[OF h1 h2, of demoParse] h1 h2 h3 show ?thesis by blast
qed

text \<open>
  The claim as the specification states it asks only that every nonzero \<^verbatim>\<open>pid\<close> equal
  some record's \<^verbatim>\<open>id\<close>. Two records that name each other as parent satisfy that, and the
  builder returns the empty forest for them: neither record is in it.
\<close>

theorem handleBackMenuTree_cycle:
  "consistentRefs [flatRecord 1 2 ''a'' JUndefined, flatRecord 2 1 ''b'' JUndefined]
   \<and> thrown (handleBackMenuTree demoParse
        [flatRecord 1 2 ''a'' JUndefined, flatRecord 2 1 ''b'' JUndefined]) = None
   \<and> forestOf (handleBackMenuTree demoParse
        [flatRecord 1 2 ''a'' JUndefined, flatRecord 2 1 ''b'' JUndefined]) = Some []
   \<and> length (forestNodes ([] :: route list))
       \<noteq> length [flatRecord 1 2 ''a'' JUndefined, flatRecord 2 1 ''b'' JUndefined]"
  by code_simp

section \<open>The role decoder keeps the shape of the forest\<close>






section \<open>C6: the home-route patcher\<close>


lemma firstHomeMatch_step:
  "\<not> (p = home \<and> \<not> declared (m_redirect m)) \<Longrightarrow>
   firstHomeMatch home ((p, m) # vs) =
     (case firstHomeMatch (if p = home then the (m_redirect m) else home) vs of
        (h, k) \<Rightarrow> (h, map_option Suc k))"
  by auto

lemma firstHomeMatch_append:
  "firstHomeMatch home (xs @ ys) =
     (case firstHomeMatch home xs of
        (h, Some k) \<Rightarrow> (h, Some k)
      | (h, None) \<Rightarrow> (case firstHomeMatch h ys of (h', k) \<Rightarrow> (h', map_option ((+) (length xs)) k)))"
proof (induction xs arbitrary: home)
  case Nil
  obtain h k where "firstHomeMatch home ys = (h, k)" by (cases "firstHomeMatch home ys")
  then show ?case by (cases k) simp_all
next
  case (Cons x xs)
  obtain p m where x: "x = (p, m)" by (cases x)
  show ?case
  proof (cases "p = home \<and> \<not> declared (m_redirect m)")
    case True
    then show ?thesis by (simp add: x)
  next
    case False
    let ?h0 = "if p = home then the (m_redirect m) else home"
    obtain h k where hk: "firstHomeMatch ?h0 xs = (h, k)" by (cases "firstHomeMatch ?h0 xs")
    obtain h' k' where hk': "firstHomeMatch h ys = (h', k')" by (cases "firstHomeMatch h ys")
    have l: "firstHomeMatch home ((p, m) # xs @ ys)
        = (case firstHomeMatch ?h0 (xs @ ys) of (h, k) \<Rightarrow> (h, map_option Suc k))"
      using False by (rule firstHomeMatch_step)
    have r: "firstHomeMatch home ((p, m) # xs) = (h, map_option Suc k)"
      using firstHomeMatch_step[OF False, of xs] hk by simp
    show ?thesis
    proof (cases k)
      case None
      have "map_option Suc (map_option ((+) (length xs)) k') = map_option ((+) (Suc (length xs))) k'"
        by (cases k') simp_all
      then show ?thesis
        unfolding x append_Cons l r Cons.IH[of ?h0] hk None using hk' by simp
    next
      case (Some i)
      show ?thesis
        unfolding x append_Cons l r Cons.IH[of ?h0] hk Some by simp
    qed
  qed
qed

lemma visits_labels:
  "map snd (visits pfx r) = map label (nodes r)"
  "map snd (visitsEach pfx rs) = map label (forestNodes rs)"
  by (induction pfx r and pfx rs rule: visits_visitsEach.induct)
     (simp_all add: forestNodes_def Let_def)

lemma markAt_Cons_Suc: "markAt (map_option Suc k) (m # ms) = m # markAt k ms"
  by (cases k) (simp_all add: markAt_def)

lemma markAt_append_left:
  "k < length xs \<Longrightarrow> markAt (Some k) (xs @ ys) = markAt (Some k) xs @ ys"
  by (simp add: markAt_def list_update_append nth_append)

lemma markAt_append_right:
  "markAt (map_option ((+) (length xs)) k) (xs @ ys) = xs @ markAt k ys"
  by (cases k) (simp_all add: markAt_def list_update_append nth_append)

lemma firstHomeMatch_bound:
  "firstHomeMatch home vs = (h, Some k) \<Longrightarrow> k < length vs"
proof (induction vs arbitrary: home k)
  case Nil then show ?case by simp
next
  case (Cons x vs)
  obtain p m where x: "x = (p, m)" by (cases x)
  from Cons.prems Cons.IH show ?case unfolding x
    by (auto split: if_splits prod.splits)
qed

lemma patch_refines:
  "(case firstHomeMatch home (visits pfx r) of (h, k) \<Rightarrow>
      fst (patchRoute home pfx r) = h
    \<and> fst (snd (patchRoute home pfx r)) = (k \<noteq> None)
    \<and> map_tree (\<lambda>_. ()) (snd (snd (patchRoute home pfx r))) = map_tree (\<lambda>_. ()) r
    \<and> map label (nodes (snd (snd (patchRoute home pfx r)))) = markAt k (map label (nodes r)))"
  "(case firstHomeMatch home (visitsEach pfx rs) of (h, k) \<Rightarrow>
      fst (patchEach home pfx rs) = h
    \<and> fst (snd (patchEach home pfx rs)) = (k \<noteq> None)
    \<and> map (map_tree (\<lambda>_. ())) (snd (snd (patchEach home pfx rs))) = map (map_tree (\<lambda>_. ())) rs
    \<and> map label (forestNodes (snd (snd (patchEach home pfx rs)))) = markAt k (map label (forestNodes rs)))"
proof (induction home pfx r and home pfx rs rule: patchRoute_patchEach.induct)
  case (1 homePath pfx m cs)
  let ?cp = "currentPathOf pfx (m_path m)"
  show ?case
  proof (cases "?cp = homePath \<and> \<not> declared (m_redirect m)")
    case True
    then show ?thesis
      by (simp add: Let_def markAt_def affixed_def tree.map_comp comp_def forestNodes_def)
  next
    case False
    let ?h1 = "if ?cp = homePath then the (m_redirect m) else homePath"
    obtain h k where hk: "firstHomeMatch ?h1 (visitsEach (prefixOf ?cp) cs) = (h, k)"
      by (cases "firstHomeMatch ?h1 (visitsEach (prefixOf ?cp) cs)")
    from "1.IH"[OF refl False refl] hk
    have IH: "fst (patchEach ?h1 (prefixOf ?cp) cs) = h"
      "fst (snd (patchEach ?h1 (prefixOf ?cp) cs)) = (k \<noteq> None)"
      "map (map_tree (\<lambda>_. ())) (snd (snd (patchEach ?h1 (prefixOf ?cp) cs))) = map (map_tree (\<lambda>_. ())) cs"
      "map label (forestNodes (snd (snd (patchEach ?h1 (prefixOf ?cp) cs)))) = markAt k (map label (forestNodes cs))"
      by auto
    have fm: "firstHomeMatch homePath (visits pfx (Node m cs)) = (h, map_option Suc k)"
      using False hk by (auto simp: Let_def)
    have pr: "patchRoute homePath pfx (Node m cs) =
        (fst (patchEach ?h1 (prefixOf ?cp) cs), fst (snd (patchEach ?h1 (prefixOf ?cp) cs)),
         Node m (snd (snd (patchEach ?h1 (prefixOf ?cp) cs))))"
      unfolding patchRoute.simps Let_def if_not_P[OF False] by (simp add: split_beta)
    show ?thesis
      unfolding fm pr using IH
      by (simp add: markAt_Cons_Suc forestNodes_def[symmetric] del: patchRoute.simps)
  qed
next
  case (2 homePath pfx)
  then show ?case by (simp add: markAt_def forestNodes_def)
next
  case (3 homePath pfx r rs)
  obtain h1 k1 where hk1: "firstHomeMatch homePath (visits pfx r) = (h1, k1)"
    by (cases "firstHomeMatch homePath (visits pfx r)")
  obtain a b c where pr: "patchRoute homePath pfx r = (a, b, c)"
    by (cases "patchRoute homePath pfx r")
  from "3.IH"(1) hk1 pr have IH1: "a = h1" "b = (k1 \<noteq> None)"
    "map_tree (\<lambda>_. ()) c = map_tree (\<lambda>_. ()) r"
    "map label (nodes c) = markAt k1 (map label (nodes r))" by auto
  have len: "length (visits pfx r) = length (nodes r)"
    using visits_labels(1)[of pfx r] by (metis length_map)
  show ?case
  proof (cases k1)
    case (Some i)
    from firstHomeMatch_bound[OF hk1[unfolded Some]] len have i: "i < length (map label (nodes r))" by simp
    have fm: "firstHomeMatch homePath (visitsEach pfx (r # rs)) = (h1, Some i)"
      using hk1 Some by (simp add: firstHomeMatch_append del: visits.simps)
    have pe: "patchEach homePath pfx (r # rs) = (h1, True, c # rs)"
      using pr IH1 Some by (simp del: patchRoute.simps)
    show ?thesis unfolding fm pe using IH1 Some markAt_append_left[OF i]
      by (simp add: forestNodes_def del: patchRoute.simps visits.simps)
  next
    case None
    obtain h2 k2 where hk2: "firstHomeMatch h1 (visitsEach pfx rs) = (h2, k2)"
      by (cases "firstHomeMatch h1 (visitsEach pfx rs)")
    have nb: "\<not> b" using IH1 None by simp
    from "3.IH"(2)[OF pr[symmetric] refl nb] IH1(1) hk2
    have IH2: "fst (patchEach h1 pfx rs) = h2" "fst (snd (patchEach h1 pfx rs)) = (k2 \<noteq> None)"
      "map (map_tree (\<lambda>_. ())) (snd (snd (patchEach h1 pfx rs))) = map (map_tree (\<lambda>_. ())) rs"
      "map label (forestNodes (snd (snd (patchEach h1 pfx rs)))) = markAt k2 (map label (forestNodes rs))"
      by auto
    have fm: "firstHomeMatch homePath (visitsEach pfx (r # rs))
        = (h2, map_option ((+) (length (nodes r))) k2)"
      using hk1 None hk2 len by (simp add: firstHomeMatch_append del: visits.simps)
    have pe: "patchEach homePath pfx (r # rs) =
        (fst (patchEach h1 pfx rs), fst (snd (patchEach h1 pfx rs)), c # snd (snd (patchEach h1 pfx rs)))"
      using pr IH1(1) nb by (simp add: split_beta del: patchRoute.simps)
    have "markAt (map_option ((+) (length (nodes r))) k2) (map label (nodes r) @ map label (forestNodes rs))
        = map label (nodes r) @ markAt k2 (map label (forestNodes rs))"
      using markAt_append_right[of "map label (nodes r)" k2 "map label (forestNodes rs)"] by simp
    then show ?thesis unfolding fm pe using IH1 IH2 None
      by (simp add: forestNodes_def markAt_def del: patchRoute.simps visits.simps)
  qed
qed



text \<open>
  C6. \<^verbatim>\<open>patchHomeAffix\<close> leaves the shape of the forest as it is and changes the label
  of at most one node: the node that the walk of the specification (\<open>firstHomeMatch\<close> over
  the nodes in depth-first array order with their resolved paths) finds, the first one
  whose resolved path equals the current target and that declares no redirect, a match
  that declares a redirect having replaced the target by the redirect before the walk
  continued. That node gets \<^verbatim>\<open>meta.affix = true\<close>; no other node is touched. In the
  example of the specification (a root \<^verbatim>\<open>/dash\<close> redirecting to \<^verbatim>\<open>/dash/child\<close> over a
  child \<^verbatim>\<open>child\<close>, home path \<^verbatim>\<open>/dash\<close>) the child is marked and the root is not.
\<close>

theorem patchHomeAffix_marks_first_match:
  "map (map_tree (\<lambda>_. ())) (patchHomeAffix home routes) = map (map_tree (\<lambda>_. ())) routes
   \<and> map label (forestNodes (patchHomeAffix home routes))
       = markAt (snd (firstHomeMatch home (visitsEach [] routes))) (map label (forestNodes routes))
   \<and> patchHomeAffix ''/dash''
        [Node ((flatRecord 1 0 ''/dash'' JUndefined)\<lparr>m_redirect := Some ''/dash/child''\<rparr>)
           [Node (flatRecord 2 1 ''child'' JUndefined) []]]
       = [Node ((flatRecord 1 0 ''/dash'' JUndefined)\<lparr>m_redirect := Some ''/dash/child''\<rparr>)
           [Node ((flatRecord 2 1 ''child'' JUndefined)\<lparr>m_meta := JObj [(''affix'', JBool True)]\<rparr>) []]]"
proof -
  obtain h k where hk: "firstHomeMatch home (visitsEach [] routes) = (h, k)"
    by (cases "firstHomeMatch home (visitsEach [] routes)")
  have p: "prefixOf [] = []" by (simp add: prefixOf_def)
  from patch_refines(2)[of home "[]" routes] hk
  have 1: "map (map_tree (\<lambda>_. ())) (snd (snd (patchEach home [] routes))) = map (map_tree (\<lambda>_. ())) routes"
    and 2: "map label (forestNodes (snd (snd (patchEach home [] routes)))) = markAt k (map label (forestNodes routes))"
    by auto
  have e: "patchHomeAffix home routes = snd (snd (patchEach home [] routes))"
  proof (cases routes)
    case Nil
    then show ?thesis by (simp add: patchHomeAffix_def)
  next
    case (Cons r rs)
    then show ?thesis
      by (simp add: patchHomeAffix_def patcher_def p split_beta del: patchEach.simps)
  qed
  have ex: "patchHomeAffix ''/dash''
        [Node ((flatRecord 1 0 ''/dash'' JUndefined)\<lparr>m_redirect := Some ''/dash/child''\<rparr>)
           [Node (flatRecord 2 1 ''child'' JUndefined) []]]
       = [Node ((flatRecord 1 0 ''/dash'' JUndefined)\<lparr>m_redirect := Some ''/dash/child''\<rparr>)
           [Node ((flatRecord 2 1 ''child'' JUndefined)\<lparr>m_meta := JObj [(''affix'', JBool True)]\<rparr>) []]]"
    by code_simp
  from 1 2 e hk ex show ?thesis by simp
qed

theorem patchHomeAffix_marks_first_match_witness:
  "snd (firstHomeMatch ''/dash'' (visitsEach []
        [Node ((flatRecord 1 0 ''/dash'' JUndefined)\<lparr>m_redirect := Some ''/dash/child''\<rparr>)
           [Node (flatRecord 2 1 ''child'' JUndefined) []],
         Node (flatRecord 3 0 ''/dash/child'' JUndefined) []])) = Some 1
   \<and> map label (forestNodes (patchHomeAffix ''/dash''
        [Node ((flatRecord 1 0 ''/dash'' JUndefined)\<lparr>m_redirect := Some ''/dash/child''\<rparr>)
           [Node (flatRecord 2 1 ''child'' JUndefined) []],
         Node (flatRecord 3 0 ''/dash/child'' JUndefined) []]))
      = [(flatRecord 1 0 ''/dash'' JUndefined)\<lparr>m_redirect := Some ''/dash/child''\<rparr>,
         affixed (flatRecord 2 1 ''child'' JUndefined),
         flatRecord 3 0 ''/dash/child'' JUndefined]"
proof -
  let ?F = "[Node ((flatRecord 1 0 ''/dash'' JUndefined)\<lparr>m_redirect := Some ''/dash/child''\<rparr>)
           [Node (flatRecord 2 1 ''child'' JUndefined) []],
         Node (flatRecord 3 0 ''/dash/child'' JUndefined) []]"
  have a: "snd (firstHomeMatch ''/dash'' (visitsEach [] ?F)) = Some 1" by code_simp
  have b: "map label (forestNodes ?F)
      = [(flatRecord 1 0 ''/dash'' JUndefined)\<lparr>m_redirect := Some ''/dash/child''\<rparr>,
         flatRecord 2 1 ''child'' JUndefined, flatRecord 3 0 ''/dash/child'' JUndefined]"
    by code_simp
  from patchHomeAffix_marks_first_match[of "''/dash''" ?F] a b show ?thesis
    by (simp add: markAt_def)
qed


section \<open>C3: the role filter\<close>


lemma some_includes_array:
  "some (includes_of (JArr xs)) R = Inr (list_ex (\<lambda>r. JStr r \<in> set xs) R)"
  by (induction R) auto

lemma routeFilter_typed:
  "typedRoles (label n) \<Longrightarrow> routeFilter R n = Inr (roleOk R (label n))"
  by (auto simp: typedRoles_def routeFilter_def roleOk_def rolesOf_def Let_def some_includes_array
           split: jsval.splits)

lemma chains_hd: "c \<in> set (chains t) \<Longrightarrow> c \<noteq> [] \<and> hd c = label t"
  by (cases t) auto

lemma filter_chains_root:
  "filter (list_all q) (chains t)
     = (if q (label t) then filter (\<lambda>c. list_all q (tl c)) (chains t) else [])"
proof -
  have "list_all q c = (q (label t) \<and> list_all q (tl c))" if "c \<in> set (chains t)" for c
    using chains_hd[OF that] by (cases c) auto
  then show ?thesis by (auto intro: filter_cong simp: filter_empty_conv)
qed

lemma chains_Node_filter:
  "filter (\<lambda>c. list_all q (tl c)) (chains (Node x cs))
     = [x] # map ((#) x) (filter (list_all q) (forestChains cs))"
  by (simp add: forestChains_def filter_map comp_def)

lemma labels_Node:
  "label ` set (nodes (Node x cs)) = insert x (label ` set (forestNodes cs))"
  by (simp add: forestNodes_def)

lemma labels_Cons:
  "label ` set (forestNodes (c # cs)) = label ` set (nodes c) \<union> label ` set (forestNodes cs)"
  by (simp add: forestNodes_def image_Un)

lemma label_in_nodes: "label t \<in> label ` set (nodes t)"
  by (cases t) simp

lemma filter_chains:
  "(\<And>n. label n \<in> S \<Longrightarrow> p n = Inr (q (label n))) \<Longrightarrow> label ` set (nodes t) \<subseteq> S \<Longrightarrow>
           \<exists>t'. filterDescendants p t = Inr t' \<and> label t' = label t
              \<and> chains t' = filter (\<lambda>c. list_all q (tl c)) (chains t)"
  "(\<And>n. label n \<in> S \<Longrightarrow> p n = Inr (q (label n))) \<Longrightarrow> label ` set (forestNodes cs) \<subseteq> S \<Longrightarrow>
           \<exists>cs'. filterSiblings p cs = Inr cs'
              \<and> forestChains cs' = filter (list_all q) (forestChains cs)"
proof (induction p t and p cs rule: filterDescendants_filterSiblings.induct)
  case (1 p x cs)
  from "1.prems"(2)[unfolded labels_Node] have "label ` set (forestNodes cs) \<subseteq> S" by blast
  from "1.IH"[OF "1.prems"(1) this] obtain cs' where cs': "filterSiblings p cs = Inr cs'"
    "forestChains cs' = filter (list_all q) (forestChains cs)" by blast
  have "chains (Node x cs') = filter (\<lambda>c. list_all q (tl c)) (chains (Node x cs))"
    unfolding chains_Node_filter using cs'(2) by (simp add: forestChains_def)
  with cs'(1) show ?case by simp
next
  case (2 p)
  then show ?case by (simp add: forestChains_def)
next
  case (3 p c cs)
  note p = "3.prems"(1)
  from "3.prems"(2)[unfolded labels_Cons] have S1: "label ` set (nodes c) \<subseteq> S"
    and S2: "label ` set (forestNodes cs) \<subseteq> S" by blast+
  from S1 label_in_nodes[of c] have "label c \<in> S" by blast
  then have pc: "p c = Inr (q (label c))" by (rule p)
  show ?case
  proof (cases "q (label c)")
    case True
    from "3.IH"(1)[OF pc True p S1] obtain c' where c': "filterDescendants p c = Inr c'"
      "label c' = label c" "chains c' = filter (\<lambda>c. list_all q (tl c)) (chains c)" by blast
    from "3.IH"(2)[OF pc True c'(1) p S2] obtain cs' where cs': "filterSiblings p cs = Inr cs'"
      "forestChains cs' = filter (list_all q) (forestChains cs)" by blast
    have "forestChains (c' # cs') = filter (list_all q) (forestChains (c # cs))"
      using c'(3) cs'(2) True by (simp add: forestChains_def filter_chains_root[of q c])
    with pc True c'(1) cs'(1) show ?thesis by simp
  next
    case False
    from "3.IH"(3)[OF pc False p S2] obtain cs' where cs': "filterSiblings p cs = Inr cs'"
      "forestChains cs' = filter (list_all q) (forestChains cs)" by blast
    have "forestChains cs' = filter (list_all q) (forestChains (c # cs))"
      using cs'(2) False by (simp add: forestChains_def filter_chains_root[of q c])
    with pc False cs'(1) show ?thesis by simp
  qed
qed

lemma top_filter_chains:
  assumes p: "\<And>n. label n \<in> S \<Longrightarrow> p n = Inr (q (label n))"
  shows "label ` set (forestNodes F) \<subseteq> S \<Longrightarrow>
     \<exists>F'. andThen (mapE (filterDescendants p) F) (arrayFilter p) = Inr F'
        \<and> forestChains F' = filter (list_all q) (forestChains F)"
proof (induction F)
  case Nil
  then show ?case by (simp add: andThen_def forestChains_def)
next
  case (Cons t F)
  from Cons.prems[unfolded labels_Cons] have S1: "label ` set (nodes t) \<subseteq> S"
    and S2: "label ` set (forestNodes F) \<subseteq> S" by blast+
  from filter_chains(1)[of S p q t, OF p S1] obtain t' where t': "filterDescendants p t = Inr t'"
    "label t' = label t" "chains t' = filter (\<lambda>c. list_all q (tl c)) (chains t)" by blast
  from Cons.IH[OF S2] obtain F' where F': "andThen (mapE (filterDescendants p) F) (arrayFilter p) = Inr F'"
    "forestChains F' = filter (list_all q) (forestChains F)" by blast
  from F'(1) obtain F1 where F1: "mapE (filterDescendants p) F = Inr F1" "arrayFilter p F1 = Inr F'"
    by (auto simp: andThen_def split: sum.splits)
  from S1 label_in_nodes[of t] have "label t \<in> S" by blast
  with t'(2) p[of t'] have pt: "p t' = Inr (q (label t))" by simp
  have "forestChains (if q (label t) then t' # F' else F') = filter (list_all q) (forestChains (t # F))"
    using t'(3) F'(2) by (simp add: forestChains_def filter_chains_root[of q t])
  with t'(1) F1 pt show ?case by (simp add: andThen_def)
qed

lemma node_chain: "n \<in> set (nodes t) \<Longrightarrow> \<exists>c\<in>set (chains t). c \<noteq> [] \<and> last c = label n"
proof (induction t)
  case (Node x ts)
  show ?case
  proof (cases "n = Node x ts")
    case True
    then show ?thesis by simp
  next
    case False
    with Node.prems obtain t where t: "t \<in> set ts" "n \<in> set (nodes t)" by auto
    from Node.IH[OF t] obtain c where c: "c \<in> set (chains t)" "c \<noteq> []" "last c = label n" by blast
    then have "x # c \<in> set (chains (Node x ts))" using t(1) by auto
    with c show ?thesis by (intro bexI[of _ "x # c"]) auto
  qed
qed

lemma forest_node_chain:
  "n \<in> set (forestNodes F) \<Longrightarrow> \<exists>c\<in>set (forestChains F). c \<noteq> [] \<and> last c = label n"
  using node_chain by (fastforce simp: forestNodes_def forestChains_def)


text \<open>
  C3. On a forest whose \<^verbatim>\<open>meta.roles\<close> are absent or arrays, the role predicate of
  lines 122-129 holds of a node exactly when its \<^verbatim>\<open>roles\<close> are absent or share an
  element with the role list; the descendant filter followed by the top-level filter does
  not raise, and the chains of its result are exactly the chains of the input all of whose
  nodes pass. So every node of the result passes, a node that fails is absent, and with it
  every node below it (their chains run through it).
\<close>

theorem role_filter_sound:
  assumes "list_all (\<lambda>n. typedRoles (label n)) (forestNodes F)"
  shows "(\<forall>n\<in>set (forestNodes F). routeFilter R n = Inr (roleOk R (label n)))
       \<and> (\<exists>F'. roleFilterPass R (Some F) = Inr F'
            \<and> forestChains F' = filter (list_all (roleOk R)) (forestChains F)
            \<and> (\<forall>n\<in>set (forestNodes F'). roleOk R (label n)))"
proof -
  let ?S = "label ` set (forestNodes F)"
  have p: "routeFilter R n = Inr (roleOk R (label n))" if "label n \<in> ?S" for n
    using that assms by (auto simp: list_all_iff intro!: routeFilter_typed)
  from top_filter_chains[of ?S "routeFilter R" "roleOk R" F, OF p]
  obtain F' where F': "andThen (mapE (filterDescendants (routeFilter R)) F) (arrayFilter (routeFilter R)) = Inr F'"
    "forestChains F' = filter (list_all (roleOk R)) (forestChains F)" by blast
  have "roleOk R (label n)" if "n \<in> set (forestNodes F')" for n
  proof -
    from forest_node_chain[OF that] obtain c where c: "c \<in> set (forestChains F')" "c \<noteq> []"
      "last c = label n" by blast
    from c(1) F'(2) have "list_all (roleOk R) c" by simp
    with c(2,3) show ?thesis by (metis last_in_set list_all_iff)
  qed
  with F' p show ?thesis by (auto simp: roleFilterPass_def filter_tree_def)
qed


theorem role_filter_sound_witness:
  "list_all (\<lambda>n. typedRoles (label n))
     (forestNodes [Node (flatRecord 1 0 ''/dash'' JUndefined)
        [Node (flatRecord 2 1 ''child'' (JObj [(''roles'', JArr [JStr ''admin''])])) []]])
   \<and> routeFilter [''user'']
        (Node (flatRecord 2 1 ''child'' (JObj [(''roles'', JArr [JStr ''admin''])])) []) = Inr False
   \<and> roleFilterPass [''user'']
        (Some [Node (flatRecord 1 0 ''/dash'' JUndefined)
           [Node (flatRecord 2 1 ''child'' (JObj [(''roles'', JArr [JStr ''admin''])])) []]])
       = Inr [Node (flatRecord 1 0 ''/dash'' JUndefined) []]
   \<and> filter (list_all (roleOk [''user'']))
        (forestChains [Node (flatRecord 1 0 ''/dash'' JUndefined)
           [Node (flatRecord 2 1 ''child'' (JObj [(''roles'', JArr [JStr ''admin''])])) []]])
       = [[flatRecord 1 0 ''/dash'' JUndefined]]"
proof -
  let ?F = "[Node (flatRecord 1 0 ''/dash'' JUndefined)
        [Node (flatRecord 2 1 ''child'' (JObj [(''roles'', JArr [JStr ''admin''])])) []]]"
  have h: "list_all (\<lambda>n. typedRoles (label n)) (forestNodes ?F)" by code_simp
  have a: "routeFilter [''user'']
        (Node (flatRecord 2 1 ''child'' (JObj [(''roles'', JArr [JStr ''admin''])])) []) = Inr False"
    by code_simp
  have b: "roleFilterPass [''user''] (Some ?F) = Inr [Node (flatRecord 1 0 ''/dash'' JUndefined) []]"
    by code_simp
  have c: "filter (list_all (roleOk [''user''])) (forestChains ?F)
       = [[flatRecord 1 0 ''/dash'' JUndefined]]" by code_simp
  from role_filter_sound[OF h, of "[''user'']"] h a b c show ?thesis by blast
qed


section \<open>The flattener and the patcher keep the ignore flag of every node\<close>


lemma digit_in: "k < 10 \<Longrightarrow> digitChars ! k \<in> set digitChars"
  by (rule nth_mem) (simp add: digitChars_def)

lemma showNat_digits: "set (showNat n) \<subseteq> set digitChars"
proof (induction n rule: showNat.induct)
  case (1 n)
  show ?case
  proof (cases "n < 10")
    case True
    with digit_in[of n] show ?thesis by (subst showNat.simps) simp
  next
    case False
    have "n mod 10 < 10" by simp
    from digit_in[OF this] "1.IH"[OF False] False show ?thesis
      by (subst showNat.simps) simp
  qed
qed

lemma showNat_not_key: "showNat n \<noteq> ''ignoreRoute''"
proof
  assume e: "showNat n = ''ignoreRoute''"
  have "CHR ''i'' \<in> set ''ignoreRoute''" by simp
  with e showNat_digits[of n] have "CHR ''i'' \<in> set digitChars" by auto
  then show False by (simp add: digitChars_def)
qed

lemma map_of_indexed: "map_of (zip (map showNat ns) ys) ''ignoreRoute'' = None"
proof -
  have "''ignoreRoute'' \<notin> fst ` set (zip (map showNat ns) ys)"
  proof
    assume "''ignoreRoute'' \<in> fst ` set (zip (map showNat ns) ys)"
    then obtain y where "(''ignoreRoute'', y) \<in> set (zip (map showNat ns) ys)" by force
    then have "''ignoreRoute'' \<in> set (map showNat ns)" by (rule set_zip_leftD)
    then obtain i where "showNat i = ''ignoreRoute''" by auto
    with showNat_not_key[of i] show False by simp
  qed
  then show ?thesis by (simp add: map_of_eq_None_iff)
qed

lemma ignored_affixed: "ignored (affixed m) = ignored m"
  by (cases "m_meta m")
     (simp_all add: ignored_def affixed_def assignAffix_def orEmpty_def update_conv' map_of_indexed)

lemma ignored_backRef:
  "ignored (m\<lparr>m_path := p, m_meta := backRef pn (m_meta m)\<rparr>) = ignored m"
  by (cases "m_meta m") (simp_all add: ignored_def orEmpty_def update_conv')

lemma in_forestNodes: "n \<in> set (forestNodes ts) \<longleftrightarrow> (\<exists>t\<in>set ts. n \<in> set (nodes t))"
  by (simp add: forestNodes_def)

lemma set_nodes_Node: "set (nodes (Node x ts)) = insert (Node x ts) (set (forestNodes ts))"
  by (simp add: forestNodes_def)

lemma child_nodes: "c \<in> set cs \<Longrightarrow> n \<in> set (nodes c) \<Longrightarrow> n \<in> set (nodes (Node x cs))"
  by auto

lemma in_hoist:
  "n \<in> set (hoist parent pp (Node m cs)) \<longleftrightarrow>
     n = Node (m\<lparr>m_path := joinPath pp (m_path m), m_meta := backRef (m_name parent) (m_meta m)\<rparr>) []
     \<or> (\<exists>c\<in>set cs. n \<in> set (hoist m (joinPath pp (m_path m)) c))"
  by (simp add: Let_def)

lemma hoist_nodes:
  "n \<in> set (hoist parent pp t) \<Longrightarrow>
     children n = [] \<and> (\<exists>n0\<in>set (nodes t). ignored (label n) = ignored (label n0))"
proof (induction t arbitrary: parent pp)
  case (Node m cs)
  from Node.prems[unfolded in_hoist] show ?case
  proof
    assume n: "n = Node (m\<lparr>m_path := joinPath pp (m_path m), m_meta := backRef (m_name parent) (m_meta m)\<rparr>) []"
    have "Node m cs \<in> set (nodes (Node m cs))" by simp
    moreover from n have "children n = []" "ignored (label n) = ignored (label (Node m cs))"
      by (simp_all add: ignored_backRef)
    ultimately show ?thesis by blast
  next
    assume "\<exists>c\<in>set cs. n \<in> set (hoist m (joinPath pp (m_path m)) c)"
    then obtain c where c: "c \<in> set cs" "n \<in> set (hoist m (joinPath pp (m_path m)) c)" by blast
    from Node.IH[OF c] obtain n0 where n0: "children n = []" "n0 \<in> set (nodes c)"
      "ignored (label n) = ignored (label n0)" by blast
    from c(1) n0(2) have "n0 \<in> set (nodes (Node m cs))" by (rule child_nodes)
    with n0 show ?thesis by blast
  qed
qed

lemma nodes_leaf: "children n = [] \<Longrightarrow> nodes n = [n]"
  by (cases n) simp

lemma foldr_max_le: "(\<And>k. k \<in> set ks \<Longrightarrow> f k \<le> (b::nat)) \<Longrightarrow> foldr max (map f ks) 0 \<le> b"
  by (induction ks) auto

lemma height_leaf: "children n = [] \<Longrightarrow> height n = 1"
  by (cases n) simp

lemma in_promote:
  "k \<in> set (promote pth c) \<longleftrightarrow>
     k = Node (label c) []
     \<or> (\<exists>g\<in>set (children c). k \<in> set (hoist (label c) (joinPath pth (m_path (label c))) g))"
  by (simp add: promote_def)

lemma promote_nodes:
  assumes "k \<in> set (promote pth c)"
  shows "children k = [] \<and> (\<exists>n0\<in>set (nodes c). ignored (label k) = ignored (label n0))"
  using assms[unfolded in_promote]
proof
  assume k: "k = Node (label c) []"
  have "c \<in> set (nodes c)" by simp
  with k show ?thesis by auto
next
  assume "\<exists>g\<in>set (children c). k \<in> set (hoist (label c) (joinPath pth (m_path (label c))) g)"
  then obtain g where g: "g \<in> set (children c)"
    "k \<in> set (hoist (label c) (joinPath pth (m_path (label c))) g)" by blast
  from hoist_nodes[OF g(2)] obtain n0 where n0: "children k = []" "n0 \<in> set (nodes g)"
    "ignored (label k) = ignored (label n0)" by blast
  from g(1) n0(2) child_nodes[of g "children c" n0 "label c"] have "n0 \<in> set (nodes c)"
    by simp
  with n0 show ?thesis by blast
qed

lemma flattenRoot_deep:
  "\<not> height r \<le> 2 \<Longrightarrow>
   flattenRoot r = Node (label r) (concat (map (promote (m_path (label r))) (children r)))"
  by (simp add: flattenRoot_def)

lemma flattenRoot_nodes:
  assumes n: "n \<in> set (nodes (flattenRoot r))"
  shows "\<exists>n0\<in>set (nodes r). ignored (label n) = ignored (label n0)"
proof (cases "height r \<le> 2")
  case True
  then have "flattenRoot r = r" by (simp add: flattenRoot_def)
  with n have "n \<in> set (nodes r)" by simp
  then show ?thesis by (intro bexI[of _ n]) simp_all
next
  case False
  obtain x cs where r: "r = Node x cs" by (cases r)
  let ?kids = "concat (map (promote (m_path x)) cs)"
  have fr: "flattenRoot r = Node x ?kids" using flattenRoot_deep[OF False] r by simp
  from n have "n \<in> insert (Node x ?kids) (set (forestNodes ?kids))"
    unfolding fr set_nodes_Node .
  then have "n = Node x ?kids \<or> (\<exists>k\<in>set ?kids. n \<in> set (nodes k))"
    unfolding insert_iff in_forestNodes .
  then show ?thesis
  proof
    assume "n = Node x ?kids"
    moreover have "r \<in> set (nodes r)" by simp
    ultimately show ?thesis using r by (intro bexI[of _ r]) simp_all
  next
    assume "\<exists>k\<in>set ?kids. n \<in> set (nodes k)"
    then obtain k where k: "k \<in> set ?kids" "n \<in> set (nodes k)" by blast
    from k(1) have "\<exists>c\<in>set cs. k \<in> set (promote (m_path x) c)"
      by (simp only: set_concat set_map UN_iff bex_simps image_iff)
    then obtain c where c: "c \<in> set cs" "k \<in> set (promote (m_path x) c)" by blast
    from promote_nodes[OF c(2)] obtain n0 where n0: "children k = []" "n0 \<in> set (nodes c)"
      "ignored (label k) = ignored (label n0)" by blast
    from k(2) n0(1) have "n = k" by (simp add: nodes_leaf)
    moreover from c(1) n0(2) have "n0 \<in> set (nodes r)" unfolding r by (rule child_nodes)
    ultimately show ?thesis using n0(3) by blast
  qed
qed

lemma flattenRoot_height: "height (flattenRoot r) \<le> 2"
proof (cases "height r \<le> 2")
  case True
  then show ?thesis by (simp add: flattenRoot_def)
next
  case False
  obtain x cs where r: "r = Node x cs" by (cases r)
  let ?kids = "concat (map (promote (m_path x)) cs)"
  have fr: "flattenRoot r = Node x ?kids" using flattenRoot_deep[OF False] r by simp
  have "foldr max (map height ?kids) 0 \<le> 1"
  proof (rule foldr_max_le)
    fix k assume "k \<in> set ?kids"
    then have "\<exists>c\<in>set cs. k \<in> set (promote (m_path x) c)"
      by (simp only: set_concat set_map UN_iff bex_simps image_iff)
    then obtain c where "k \<in> set (promote (m_path x) c)" by blast
    from promote_nodes[OF this] show "height k \<le> 1" by (simp add: height_leaf)
  qed
  moreover have "height (Node x ?kids) = Suc (foldr max (map height ?kids) 0)"
    by (rule height.simps)
  ultimately show ?thesis unfolding fr by linarith
qed

lemma flatMultiLevelRoutes_two_levels: "list_all (\<lambda>r. height r \<le> 2) (flatMultiLevelRoutes routes)"
  unfolding flatMultiLevelRoutes_def list_all_iff
proof
  fix t assume "t \<in> set (map flattenRoot routes)"
  then obtain r where "t = flattenRoot r" by (simp only: set_map image_iff) blast
  then show "height t \<le> 2" by (simp only: flattenRoot_height)
qed



lemma flatMultiLevelRoutes_not_ignored:
  assumes "\<forall>n\<in>set (forestNodes routes). \<not> ignored (label n)"
  shows "\<forall>n\<in>set (forestNodes (flatMultiLevelRoutes routes)). \<not> ignored (label n)"
proof
  fix n assume "n \<in> set (forestNodes (flatMultiLevelRoutes routes))"
  then have "n \<in> set (concat (map nodes (map flattenRoot routes)))"
    by (simp only: forestNodes_def flatMultiLevelRoutes_def)
  then obtain r where r: "r \<in> set routes" "n \<in> set (nodes (flattenRoot r))"
    by auto
  from flattenRoot_nodes[OF r(2)] obtain n0 where n0: "n0 \<in> set (nodes r)"
    "ignored (label n) = ignored (label n0)" by blast
  from r(1) n0(1) have "n0 \<in> set (forestNodes routes)"
    by (auto simp: forestNodes_def)
  with assms n0(2) show "\<not> ignored (label n)" by blast
qed



lemma patchHomeAffix_eq:
  "patchHomeAffix home routes = snd (snd (patchEach home [] routes))"
proof (cases routes)
  case Nil
  then show ?thesis by (simp add: patchHomeAffix_def)
next
  case (Cons r rs)
  then show ?thesis
    by (simp add: patchHomeAffix_def patcher_def prefixOf_def split_beta del: patchEach.simps)
qed

lemma patchHomeAffix_shape:
  "map (map_tree (\<lambda>_. ())) (patchHomeAffix home routes) = map (map_tree (\<lambda>_. ())) routes"
proof -
  obtain h k where hk: "firstHomeMatch home (visitsEach [] routes) = (h, k)"
    by (cases "firstHomeMatch home (visitsEach [] routes)")
  from patch_refines(2)[of home "[]" routes] hk show ?thesis
    by (simp add: patchHomeAffix_eq)
qed

lemma patchHomeAffix_labels:
  "map label (forestNodes (patchHomeAffix home routes))
     = markAt (snd (firstHomeMatch home (visitsEach [] routes))) (map label (forestNodes routes))"
proof -
  obtain h k where hk: "firstHomeMatch home (visitsEach [] routes) = (h, k)"
    by (cases "firstHomeMatch home (visitsEach [] routes)")
  from patch_refines(2)[of home "[]" routes] hk show ?thesis
    by (simp add: patchHomeAffix_eq)
qed

lemma markAt_set: "x \<in> set (markAt k ms) \<Longrightarrow> x \<in> set ms \<or> (\<exists>m\<in>set ms. x = affixed m)"
proof (cases k)
  case None
  assume "x \<in> set (markAt k ms)"
  with None show ?thesis by (simp add: markAt_def)
next
  case (Some i)
  assume x: "x \<in> set (markAt k ms)"
  show ?thesis
  proof (cases "i < length ms")
    case True
    from x Some have "x \<in> set (ms[i := affixed (ms ! i)])" by (simp add: markAt_def)
    then have "x \<in> insert (affixed (ms ! i)) (set ms)"
      using set_update_subset_insert[of ms i "affixed (ms ! i)"] by blast
    with True show ?thesis using nth_mem[OF True] by blast
  next
    case False
    then have "ms[i := affixed (ms ! i)] = ms" by (simp add: list_update_beyond)
    with x Some show ?thesis by (simp add: markAt_def)
  qed
qed

lemma patchHomeAffix_not_ignored:
  assumes "\<forall>n\<in>set (forestNodes routes). \<not> ignored (label n)"
  shows "\<forall>n\<in>set (forestNodes (patchHomeAffix home routes)). \<not> ignored (label n)"
proof
  fix n assume "n \<in> set (forestNodes (patchHomeAffix home routes))"
  then have "label n \<in> set (map label (forestNodes (patchHomeAffix home routes)))" by simp
  then have "label n \<in> set (markAt (snd (firstHomeMatch home (visitsEach [] routes)))
                 (map label (forestNodes routes)))"
    by (simp only: patchHomeAffix_labels)
  from markAt_set[OF this] assms show "\<not> ignored (label n)"
    by (auto simp: ignored_affixed)
qed

lemma forestNodes_append: "forestNodes (xs @ ys) = forestNodes xs @ forestNodes ys"
  by (simp add: forestNodes_def)

lemma ignoreFilterPass_ok:
  "\<exists>routes'. ignoreFilterPass routes = Inr routes'
      \<and> forestChains routes' = filter (list_all (\<lambda>m. \<not> ignored m)) (forestChains routes)
      \<and> (\<forall>n\<in>set (forestNodes routes'). \<not> ignored (label n))"
proof -
  have p: "routeRemoveIgnoreFilter n = Inr (\<not> ignored (label n))" if "label n \<in> UNIV" for n
    by (simp add: routeRemoveIgnoreFilter_def ignored_def)
  from top_filter_chains[of UNIV routeRemoveIgnoreFilter "\<lambda>m. \<not> ignored m" routes, OF p]
  obtain F' where F': "andThen (mapE (filterDescendants routeRemoveIgnoreFilter) routes)
        (arrayFilter routeRemoveIgnoreFilter) = Inr F'"
    "forestChains F' = filter (list_all (\<lambda>m. \<not> ignored m)) (forestChains routes)" by blast
  have "\<not> ignored (label n)" if "n \<in> set (forestNodes F')" for n
  proof -
    from forest_node_chain[OF that] obtain c where c: "c \<in> set (forestChains F')" "c \<noteq> []"
      "last c = label n" by blast
    from c(1) F'(2) have "list_all (\<lambda>m. \<not> ignored m) c" by simp
    with c(2,3) show ?thesis by (metis last_in_set list_all_iff)
  qed
  with F' show ?thesis by (auto simp: ignoreFilterPass_def filter_tree_def)
qed



lemma mset_map_concat:
  "mset (map g (concat (map h xs))) = (\<Sum>x\<in>#mset xs. mset (map g (h x)))"
  by (induction xs) simp_all

lemma toMenu_metas:
  "mset (map (\<lambda>a. mn_meta (label a)) (nodes (toMenu fillPath parent r)))
     = mset (map (\<lambda>n. m_meta (label n)) (nodes r))"
proof (induction r arbitrary: parent)
  case (Node m cs)
  obtain p where t: "toMenu fillPath parent (Node m cs)
      = Node \<lparr>mn_name = m_name m, mn_path = p, mn_meta = m_meta m\<rparr>
          (sort_key orderKey (map (toMenu fillPath (Some p)) cs))"
    by (simp add: Let_def)
  have "mset (map (\<lambda>a. mn_meta (label a))
               (concat (map nodes (sort_key orderKey (map (toMenu fillPath (Some p)) cs)))))
      = (\<Sum>x\<in>#mset (sort_key orderKey (map (toMenu fillPath (Some p)) cs)).
            mset (map (\<lambda>a. mn_meta (label a)) (nodes x)))"
    by (rule mset_map_concat)
  also have "\<dots> = (\<Sum>c\<in>#mset cs.
            mset (map (\<lambda>a. mn_meta (label a)) (nodes (toMenu fillPath (Some p) c))))"
    by (simp add: image_mset.compositionality comp_def)
  also have "\<dots> = (\<Sum>c\<in>#mset cs. mset (map (\<lambda>n. m_meta (label n)) (nodes c)))"
    using Node.IH by (intro arg_cong[where f = sum_mset] image_mset_cong) simp
  also have "\<dots> = mset (map (\<lambda>n. m_meta (label n)) (concat (map nodes cs)))"
    by (rule mset_map_concat[symmetric])
  finally show ?case unfolding t by simp
qed

lemma transformRouteToMenu_metas:
  "mset (map (\<lambda>a. mn_meta (label a)) (forestNodes (transformRouteToMenu routes fillPath)))
     = mset (map (\<lambda>n. m_meta (label n)) (forestNodes routes))"
proof -
  have "mset (map (\<lambda>a. mn_meta (label a)) (forestNodes (transformRouteToMenu routes fillPath)))
      = (\<Sum>x\<in>#mset (sort_key orderKey (map (toMenu fillPath None) routes)).
            mset (map (\<lambda>a. mn_meta (label a)) (nodes x)))"
    unfolding forestNodes_def transformRouteToMenu_def by (rule mset_map_concat)
  also have "\<dots> = (\<Sum>r\<in>#mset routes.
            mset (map (\<lambda>a. mn_meta (label a)) (nodes (toMenu fillPath None r))))"
    by (simp add: image_mset.compositionality comp_def)
  also have "\<dots> = (\<Sum>r\<in>#mset routes. mset (map (\<lambda>n. m_meta (label n)) (nodes r)))"
    by (simp only: toMenu_metas)
  also have "\<dots> = mset (map (\<lambda>n. m_meta (label n)) (forestNodes routes))"
    unfolding forestNodes_def by (rule mset_map_concat[symmetric])
  finally show ?thesis .
qed

lemma buildRoutesAction_ROUTE_MAPPING:
  "permissionMode E = ROUTE_MAPPING \<Longrightarrow>
   roleFilterPass (getRoleList E) (fst (loadBackRoutes E)) = Inr routes \<Longrightarrow>
   ignoreFilterPass routes = Inr routes' \<Longrightarrow>
   buildRoutesAction E s =
     \<lparr>returned = Inr (finish E (flatMultiLevelRoutes routes')),
      store = setFrontMenuList
                (arraySort (compareOrderNo (coerceNumber E)) (transformRouteToMenu routes True)) s,
      written = snd (loadBackRoutes E)\<rparr>"
  by (simp add: buildRoutesAction_def split_beta Let_def)

lemma buildRoutesAction_ROLE:
  "permissionMode E = ROLE \<Longrightarrow>
   buildRoutesAction E s =
     \<lparr>returned = (case roleFilterPass (getRoleList E) (fst (loadBackRoutes E)) of
                    Inl e \<Rightarrow> Inl e
                  | Inr routes \<Rightarrow> Inr (finish E (flatMultiLevelRoutes routes))),
      store = s, written = snd (loadBackRoutes E)\<rparr>"
  by (simp add: buildRoutesAction_def split_beta Let_def split: sum.splits)

lemma finish_not_ignored:
  assumes "\<forall>n\<in>set (forestNodes routes). \<not> ignored (label n)"
    and "list_all (\<lambda>n. \<not> ignored (label n)) (nodes (ERROR_LOG_ROUTE E))"
  shows "\<forall>n\<in>set (forestNodes (finish E routes)). \<not> ignored (label n)"
proof -
  have "\<forall>n\<in>set (forestNodes (routes @ [ERROR_LOG_ROUTE E])). \<not> ignored (label n)"
    using assms by (auto simp: forestNodes_append list_all_iff forestNodes_def)
  then show ?thesis unfolding finish_def by (rule patchHomeAffix_not_ignored)
qed


section \<open>C1: a failed backend request\<close>

text \<open>
  C1. The claim is that no failure leaves the pass. In the \<^verbatim>\<open>ROLE\<close> and
  \<^verbatim>\<open>ROUTE_MAPPING\<close> modes a rejected request for the backend menu list is caught and
  logged, but \<^verbatim>\<open>backRouteList\<close> stays undefined and is handed to the role filter: the
  pass ends with \<^verbatim>\<open>TypeError\<close>. In the \<^verbatim>\<open>BACK\<close> mode, whose list starts as the
  empty array, the same failure yields the two reserved routes.
\<close>

theorem failed_fetch_leaves_role_pass:
  "returned (buildRoutesAction (demoEnv ROLE (Inl NetworkError)) initialState) = Inl TypeError
   \<and> returned (buildRoutesAction (demoEnv ROUTE_MAPPING (Inl NetworkError)) initialState) = Inl TypeError
   \<and> fst (loadBackRoutes (demoEnv ROLE (Inl NetworkError))) = None
   \<and> returned (buildRoutesAction (demoEnv BACK (Inl NetworkError)) initialState)
       = Inr [Node (flatRecord 0 0 ''/:path(.*)*'' JUndefined) [],
              Node (flatRecord 0 0 ''/error-log'' JUndefined) []]"
  by code_simp


section \<open>C4: the front menu and the ignore pruning\<close>

text \<open>
  C4. In the \<^verbatim>\<open>ROUTE_MAPPING\<close> mode the stored front menu is the sorted menu of the
  role-filtered routes, computed before any ignore pruning: the menu has a node for every
  node of those routes, with the same \<^verbatim>\<open>meta\<close>, flagged or not (the nodes of the menu
  and of the routes carry the same metadata, each as often; the converter orders
  siblings, so they are compared as multisets). The ignore pruning (descendant
  pass, then top-level pass) is applied to the routes handed to the flattener: exactly the
  chains without a flagged node remain, and no node of the returned forest is flagged
  (the reserved error-log route, a constant from outside the module, is assumed to carry no
  flag). The witness is a pass in which a flagged node is in the stored front menu and not
  in the returned forest.
\<close>

theorem route_mapping_menu_before_ignore_pruning:
  assumes "permissionMode E = ROUTE_MAPPING"
    and "roleFilterPass (getRoleList E) (fst (loadBackRoutes E)) = Inr routes"
    and "list_all (\<lambda>n. \<not> ignored (label n)) (nodes (ERROR_LOG_ROUTE E))"
  shows "frontMenuList (store (buildRoutesAction E s))
           = arraySort (compareOrderNo (coerceNumber E)) (transformRouteToMenu routes True)
       \<and> mset (map (\<lambda>a. mn_meta (label a)) (forestNodes (transformRouteToMenu routes True)))
           = mset (map (\<lambda>n. m_meta (label n)) (forestNodes routes))
       \<and> (\<exists>routes'. ignoreFilterPass routes = Inr routes'
            \<and> forestChains routes' = filter (list_all (\<lambda>m. \<not> ignored m)) (forestChains routes)
            \<and> returned (buildRoutesAction E s) = Inr (finish E (flatMultiLevelRoutes routes'))
            \<and> (\<forall>n\<in>set (forestNodes (finish E (flatMultiLevelRoutes routes'))).
                  \<not> ignored (label n)))"
proof -
  from ignoreFilterPass_ok[of routes] obtain routes' where r': "ignoreFilterPass routes = Inr routes'"
    "forestChains routes' = filter (list_all (\<lambda>m. \<not> ignored m)) (forestChains routes)"
    "\<forall>n\<in>set (forestNodes routes'). \<not> ignored (label n)" by blast
  note b = buildRoutesAction_ROUTE_MAPPING[OF assms(1,2) r'(1), of s]
  from flatMultiLevelRoutes_not_ignored[OF r'(3)]
  have "\<forall>n\<in>set (forestNodes (finish E (flatMultiLevelRoutes routes'))). \<not> ignored (label n)"
    using assms(3) by (rule finish_not_ignored)
  with r'(1,2) b transformRouteToMenu_metas[of routes True] show ?thesis
    by (simp add: setFrontMenuList_def)
qed

theorem route_mapping_menu_before_ignore_pruning_witness:
  "permissionMode (demoEnv ROUTE_MAPPING
      (Inr [flatRecord 1 0 ''/dash'' JUndefined,
            flatRecord 2 1 ''hidden'' (JStr ''{\"ignoreRoute\":true}'')])) = ROUTE_MAPPING
   \<and> roleFilterPass [''user''] (fst (loadBackRoutes (demoEnv ROUTE_MAPPING
      (Inr [flatRecord 1 0 ''/dash'' JUndefined,
            flatRecord 2 1 ''hidden'' (JStr ''{\"ignoreRoute\":true}'')]))))
       = Inr [Node (flatRecord 1 0 ''/dash'' JUndefined)
                [Node (flatRecord 2 1 ''hidden'' (JObj [(''ignoreRoute'', JBool True)])) []]]
   \<and> list_all (\<lambda>n. \<not> ignored (label n)) (nodes (Node (flatRecord 0 0 ''/error-log'' JUndefined) []))
   \<and> frontMenuList (store (buildRoutesAction (demoEnv ROUTE_MAPPING
      (Inr [flatRecord 1 0 ''/dash'' JUndefined,
            flatRecord 2 1 ''hidden'' (JStr ''{\"ignoreRoute\":true}'')])) initialState))
       = [Node \<lparr>mn_name = ''/dash'', mn_path = ''/dash'', mn_meta = JUndefined\<rparr>
            [Node \<lparr>mn_name = ''hidden'', mn_path = ''/dash/hidden'',
                    mn_meta = JObj [(''ignoreRoute'', JBool True)]\<rparr> []]]
   \<and> ignoredMenu \<lparr>mn_name = ''hidden'', mn_path = ''/dash/hidden'',
                    mn_meta = JObj [(''ignoreRoute'', JBool True)]\<rparr>
   \<and> returned (buildRoutesAction (demoEnv ROUTE_MAPPING
      (Inr [flatRecord 1 0 ''/dash'' JUndefined,
            flatRecord 2 1 ''hidden'' (JStr ''{\"ignoreRoute\":true}'')])) initialState)
       = Inr [Node (flatRecord 1 0 ''/dash'' JUndefined) [],
              Node (flatRecord 0 0 ''/error-log'' JUndefined) []]"
proof -
  let ?E = "demoEnv ROUTE_MAPPING
      (Inr [flatRecord 1 0 ''/dash'' JUndefined,
            flatRecord 2 1 ''hidden'' (JStr ''{\"ignoreRoute\":true}'')])"
  let ?routes = "[Node (flatRecord 1 0 ''/dash'' JUndefined)
                [Node (flatRecord 2 1 ''hidden'' (JObj [(''ignoreRoute'', JBool True)])) []]]"
  have h1: "permissionMode ?E = ROUTE_MAPPING" by (simp add: demoEnv_def)
  have g: "getRoleList ?E = [''user'']" by (simp add: demoEnv_def)
  have h2': "roleFilterPass [''user''] (fst (loadBackRoutes ?E)) = Inr ?routes" by code_simp
  have h2: "roleFilterPass (getRoleList ?E) (fst (loadBackRoutes ?E)) = Inr ?routes"
    unfolding g by (rule h2')
  have e: "ERROR_LOG_ROUTE ?E = Node (flatRecord 0 0 ''/error-log'' JUndefined) []"
    by (simp add: demoEnv_def)
  have h3': "list_all (\<lambda>n. \<not> ignored (label n)) (nodes (Node (flatRecord 0 0 ''/error-log'' JUndefined) []))"
    by code_simp
  have h3: "list_all (\<lambda>n. \<not> ignored (label n)) (nodes (ERROR_LOG_ROUTE ?E))"
    unfolding e by (rule h3')
  have m: "arraySort (compareOrderNo (coerceNumber ?E)) (transformRouteToMenu ?routes True)
       = [Node \<lparr>mn_name = ''/dash'', mn_path = ''/dash'', mn_meta = JUndefined\<rparr>
            [Node \<lparr>mn_name = ''hidden'', mn_path = ''/dash/hidden'',
                    mn_meta = JObj [(''ignoreRoute'', JBool True)]\<rparr> []]]" by code_simp
  have i: "ignoredMenu \<lparr>mn_name = ''hidden'', mn_path = ''/dash/hidden'',
                    mn_meta = JObj [(''ignoreRoute'', JBool True)]\<rparr>" by code_simp
  have r: "returned (buildRoutesAction ?E initialState)
       = Inr [Node (flatRecord 1 0 ''/dash'' JUndefined) [],
              Node (flatRecord 0 0 ''/error-log'' JUndefined) []]" by code_simp
  from route_mapping_menu_before_ignore_pruning[OF h1 h2 h3, of initialState]
  have "frontMenuList (store (buildRoutesAction ?E initialState))
           = arraySort (compareOrderNo (coerceNumber ?E)) (transformRouteToMenu ?routes True)"
    by blast
  with h1 h2' h3' m i r show ?thesis by simp
qed


section \<open>C5: the order of the front menu\<close>











section \<open>C7: the routes of the ROLE mode\<close>

text \<open>
  C7, as amended. In the \<^verbatim>\<open>ROLE\<close> mode the role filter (descendant pass, then top-level
  pass) is applied to \<^verbatim>\<open>backRouteList\<close>, the forest built from the list fetched from the
  backend (decorated by \<^verbatim>\<open>wrapperRouterComponent\<close> and \<^verbatim>\<open>parseRouteRoles\<close>), not to
  static route declarations; the result is flattened to roots of at most two levels, the
  error-log route is appended and the home route is marked. The store is left as it is.
\<close>

theorem role_mode_filters_backend_routes:
  assumes "permissionMode E = ROLE"
  shows "returned (buildRoutesAction E s)
           = (case roleFilterPass (getRoleList E) (fst (loadBackRoutes E)) of
                Inl e \<Rightarrow> Inl e
              | Inr routes \<Rightarrow>
                  Inr (patchHomeAffix (homePathOf E)
                         (flatMultiLevelRoutes routes @ [ERROR_LOG_ROUTE E])))
       \<and> store (buildRoutesAction E s) = s
       \<and> (\<forall>routes. list_all (\<lambda>r. height r \<le> 2) (flatMultiLevelRoutes routes))
       \<and> (\<forall>L F. getBackActiveMenuList E = Inr L
              \<and> thrown (handleBackMenuTree (JSON_parse E) L) = None
              \<and> forestOf (handleBackMenuTree (JSON_parse E) L) = Some F
            \<longrightarrow> fst (loadBackRoutes E)
                  = Some (fst (parseRouteRoles (JSON_parse E)
                                 (wrapperRouterComponent (ROUTE_MAP E) F))))"
proof -
  have l: "fst (loadBackRoutes E)
        = Some (fst (parseRouteRoles (JSON_parse E) (wrapperRouterComponent (ROUTE_MAP E) F)))"
    if "getBackActiveMenuList E = Inr L" "thrown (handleBackMenuTree (JSON_parse E) L) = None"
      "forestOf (handleBackMenuTree (JSON_parse E) L) = Some F" for L F
    using that by (simp add: loadBackRoutes_def Let_def split_beta)
  from buildRoutesAction_ROLE[OF assms, of s] flatMultiLevelRoutes_two_levels l
  show ?thesis by (simp add: finish_def split: sum.splits)
qed

theorem role_mode_filters_backend_routes_witness:
  "permissionMode (demoEnv ROLE
      (Inr [flatRecord 1 0 ''/dash'' JUndefined,
            flatRecord 2 1 ''child'' (JStr ''{\"roles\":[\"admin\"]}'')])) = ROLE
   \<and> fst (loadBackRoutes (demoEnv ROLE
      (Inr [flatRecord 1 0 ''/dash'' JUndefined,
            flatRecord 2 1 ''child'' (JStr ''{\"roles\":[\"admin\"]}'')])))
       = Some [Node (flatRecord 1 0 ''/dash'' JUndefined)
                 [Node (flatRecord 2 1 ''child'' (JObj [(''roles'', JArr [JStr ''admin''])])) []]]
   \<and> returned (buildRoutesAction (demoEnv ROLE
      (Inr [flatRecord 1 0 ''/dash'' JUndefined,
            flatRecord 2 1 ''child'' (JStr ''{\"roles\":[\"admin\"]}'')])) initialState)
       = Inr [Node (flatRecord 1 0 ''/dash'' JUndefined) [],
              Node (flatRecord 0 0 ''/error-log'' JUndefined) []]
   \<and> store (buildRoutesAction (demoEnv ROLE
      (Inr [flatRecord 1 0 ''/dash'' JUndefined,
            flatRecord 2 1 ''child'' (JStr ''{\"roles\":[\"admin\"]}'')])) initialState) = initialState"
proof -
  let ?E = "demoEnv ROLE
      (Inr [flatRecord 1 0 ''/dash'' JUndefined,
            flatRecord 2 1 ''child'' (JStr ''{\"roles\":[\"admin\"]}'')])"
  have h: "permissionMode ?E = ROLE" by (simp add: demoEnv_def)
  have a: "fst (loadBackRoutes ?E)
       = Some [Node (flatRecord 1 0 ''/dash'' JUndefined)
                 [Node (flatRecord 2 1 ''child'' (JObj [(''roles'', JArr [JStr ''admin''])])) []]]"
    by code_simp
  have b: "returned (buildRoutesAction ?E initialState)
       = Inr [Node (flatRecord 1 0 ''/dash'' JUndefined) [],
              Node (flatRecord 0 0 ''/error-log'' JUndefined) []]" by code_simp
  from role_mode_filters_backend_routes[OF h, of initialState]
  have "store (buildRoutesAction ?E initialState) = initialState" by blast
  with h a b show ?thesis by blast
qed


text \<open>
  The claim as stated has the filter applied to static declarations and not to a fetched
  list. Two passes with the same constants and roles that differ only in the list the
  backend delivers return different routes.
\<close>

theorem role_mode_depends_on_backend_list:
  "ERROR_LOG_ROUTE (demoEnv ROLE (Inr [flatRecord 1 0 ''/dash'' JUndefined]))
     = ERROR_LOG_ROUTE (demoEnv ROLE (Inr []))
   \<and> getRoleList (demoEnv ROLE (Inr [flatRecord 1 0 ''/dash'' JUndefined]))
     = getRoleList (demoEnv ROLE (Inr []))
   \<and> returned (buildRoutesAction (demoEnv ROLE (Inr [flatRecord 1 0 ''/dash'' JUndefined])) initialState)
     = Inr [Node (flatRecord 1 0 ''/dash'' JUndefined) [],
            Node (flatRecord 0 0 ''/error-log'' JUndefined) []]
   \<and> returned (buildRoutesAction (demoEnv ROLE (Inr [])) initialState)
     = Inr [Node (flatRecord 0 0 ''/error-log'' JUndefined) []]
   \<and> returned (buildRoutesAction (demoEnv ROLE (Inr [flatRecord 1 0 ''/dash'' JUndefined])) initialState)
     \<noteq> returned (buildRoutesAction (demoEnv ROLE (Inr [])) initialState)"
  by code_simp


section \<open>C8: a record whose metadata does not decode\<close>




















text \<open>
  The property is stated for texts. A \<^verbatim>\<open>roles\<close> that is an object does not decode
  either (the decoder is handed the text \<^verbatim>\<open>[object Object]\<close>), the failure is logged
  and the object is retained; it has no \<^verbatim>\<open>includes\<close>, so the role predicate raises on
  it and the pass of the \<^verbatim>\<open>ROLE\<close> mode ends with \<^verbatim>\<open>TypeError\<close>.
\<close>

lemma retained_object_roles_raises:
  "demoParse (JObj []) = None
   \<and> fst (loadBackRoutes (demoEnv ROLE (Inr [flatRecord 1 0 ''/dash'' (JStr ''{\"roles\":{}}'')])))
       = Some [Node (flatRecord 1 0 ''/dash'' (JObj [(''roles'', JObj [])])) []]
   \<and> written (buildRoutesAction
        (demoEnv ROLE (Inr [flatRecord 1 0 ''/dash'' (JStr ''{\"roles\":{}}'')])) initialState)
       = [SyntaxError]
   \<and> returned (buildRoutesAction
        (demoEnv ROLE (Inr [flatRecord 1 0 ''/dash'' (JStr ''{\"roles\":{}}'')])) initialState)
       = Inl TypeError"
  by code_simp


end
